theory Spec2Isabelle
  imports Main "HOL-Library.Multiset"
begin

section \<open>Data model\<close>

text \<open>
  The records follow the interfaces of the two \<^verbatim>\<open>Models.ts\<close> files.  An optional
  field (\<^verbatim>\<open>parentId?: string\<close>) is an \<open>option\<close>: \<open>None\<close> is JavaScript's
  \<^verbatim>\<open>undefined\<close>.  Numbers that the code only uses as integers (order, line,
  timestamps) are \<open>int\<close>.  The view cache \<^verbatim>\<open>children?: Todo[]\<close> of a todo is
  rebuilt by the tree provider on every read and is not part of the stored state.
\<close>

record Todo =
  t_id :: string
  t_text :: string
  t_done :: bool
  t_createdAt :: int
  t_updatedAt :: int
  t_order :: int
  t_parentId :: "string option"

record Bookmark =
  b_id :: string
  b_fileUri :: string
  b_line :: int
  b_text :: string
  b_createdAt :: int
  b_updatedAt :: int
  b_order :: int
  b_color :: "string option"
  b_parentId :: "string option"

record BookmarkFolder =
  f_id :: string
  f_name :: string
  f_parentId :: "string option"
  f_createdAt :: int
  f_updatedAt :: int
  f_order :: int
  f_isExpanded :: "bool option"

text \<open>The state of \<^verbatim>\<open>BookmarkService\<close>: its two private arrays.\<close>

record BookmarkService =
  bookmarks :: "Bookmark list"
  folders :: "BookmarkFolder list"

text \<open>
  JavaScript truthiness of an optional string, as tested by \<^verbatim>\<open>while (currentId)\<close>
  and \<^verbatim>\<open>if (targetFolderId)\<close>: \<^verbatim>\<open>undefined\<close> and the empty string are falsy.
\<close>

fun truthy :: "string option \<Rightarrow> bool" where
  "truthy None = False"
| "truthy (Some s) = (s \<noteq> [])"

text \<open>
  \<^verbatim>\<open>String.prototype.trim\<close> strips the white space and the line terminators of
  ECMAScript from both ends.  A \<open>char\<close> is a code unit below 256, and of these
  the stripped ones are TAB, LF, VT, FF, CR, the space and the no-break space
  U+00A0; the others (U+1680, U+2000 to U+200A, U+2028, U+2029, U+202F, U+205F,
  U+3000, U+FEFF) are no values of the type.
\<close>

definition is_space :: "char \<Rightarrow> bool" where
  "is_space c = (c \<in> set [CHR '' '', CHR 0x09, CHR 0x0A, CHR 0x0B, CHR 0x0C, CHR 0x0D, CHR 0xA0])"

definition trim :: "string \<Rightarrow> string" where
  "trim s = rev (dropWhile is_space (rev (dropWhile is_space s)))"

section \<open>Validators\<close>

text \<open>\<^verbatim>\<open>TodoValidator.validateTotalCount\<close>; \<open>None\<close> is the returned \<^verbatim>\<open>null\<close>.\<close>

definition validateTotalCount_todo :: "Todo list \<Rightarrow> string option" where
  "validateTotalCount_todo todos =
     (if length todos \<ge> 100 then Some ''Total Todo count cannot exceed 100.'' else None)"

text \<open>\<^verbatim>\<open>BookmarkValidator.validateTotalCount\<close>.\<close>

definition validateTotalCount_bookmark :: "Bookmark list \<Rightarrow> string option" where
  "validateTotalCount_bookmark bs =
     (if length bs \<ge> 200 then Some ''Total Bookmark count cannot exceed 200.'' else None)"

section \<open>TodoService\<close>

text \<open>
  The state of \<^verbatim>\<open>TodoService\<close> is its array \<^verbatim>\<open>todos\<close>.  The results of
  \<^verbatim>\<open>uuidv4()\<close> and \<^verbatim>\<open>Date.now()\<close> are parameters (\<open>newId\<close>, \<open>now\<close>).
  \<^verbatim>\<open>addTodo\<close> returns the new array and the created todo.
\<close>

definition addTodo :: "Todo list \<Rightarrow> string \<Rightarrow> string option \<Rightarrow> string \<Rightarrow> int \<Rightarrow> Todo list \<times> Todo" where
  "addTodo todos txt parentId newId now =
     (let newTodo = \<lparr> t_id = newId, t_text = trim txt, t_done = False,
                        t_createdAt = now, t_updatedAt = now,
                        t_order = int (length todos), t_parentId = parentId \<rparr>
      in (todos @ [newTodo], newTodo))"

text \<open>
  The command \<^verbatim>\<open>vs-codebench.addTodo\<close>.  It validates the count, then shows the
  input box until the user cancels or a todo is created.  \<open>addTodo_prompt\<close> is
  the body of its \<^verbatim>\<open>while (inputBoxOpen)\<close> loop for one result \<open>input\<close> of the
  input box (\<open>None\<close>: cancelled): it gives the new value of \<^verbatim>\<open>inputBoxOpen\<close>, the
  error message shown, if any, and the array.  An empty \<open>input\<close> fails the test
  \<^verbatim>\<open>else if (input)\<close>: nothing is created and the box is shown again.  The
  command takes the successive results of the input box and returns the
  messages shown and the array; when the results run out the box is still
  open.
\<close>

definition addTodo_prompt :: "Todo list \<Rightarrow> string option \<Rightarrow> string \<Rightarrow> int \<Rightarrow> bool \<times> string option \<times> Todo list" where
  "addTodo_prompt todos input newId now =
     (case input of
        None \<Rightarrow> (False, None, todos)
      | Some i \<Rightarrow>
          if i \<noteq> [] then
            (case validateTotalCount_todo todos of
               Some currentCountError \<Rightarrow> (True, Some currentCountError, todos)
             | None \<Rightarrow> (False, None, fst (addTodo todos i None newId now)))
          else (True, None, todos))"

fun addTodo_loop :: "Todo list \<Rightarrow> string option list \<Rightarrow> string \<Rightarrow> int \<Rightarrow> string list \<times> Todo list" where
  "addTodo_loop todos [] newId now = ([], todos)"
| "addTodo_loop todos (input # inputs) newId now =
     (case addTodo_prompt todos input newId now of
        (inputBoxOpen, shown, todos') \<Rightarrow>
          (let messages = (case shown of None \<Rightarrow> [] | Some e \<Rightarrow> [e]) in
           if inputBoxOpen
           then (case addTodo_loop todos' inputs newId now of
                   (later, result) \<Rightarrow> (messages @ later, result))
           else (messages, todos')))"

definition addTodo_command :: "Todo list \<Rightarrow> string option list \<Rightarrow> string \<Rightarrow> int \<Rightarrow> string list \<times> Todo list" where
  "addTodo_command todos inputs newId now =
     (case validateTotalCount_todo todos of
        Some countError \<Rightarrow> ([countError], todos)
      | None \<Rightarrow> addTodo_loop todos inputs newId now)"

text \<open>
  Loops whose body may fail to return thread an optional state: \<open>None\<close> is a
  computation that ran out of fuel.  \<open>forEachM\<close> is \<^verbatim>\<open>for (const x of xs) { ... }\<close>.
\<close>

fun forEachM :: "('a \<Rightarrow> 's \<Rightarrow> 's option) \<Rightarrow> 'a list \<Rightarrow> 's \<Rightarrow> 's option" where
  "forEachM body [] s = Some s"
| "forEachM body (x # xs) s = (case body x s of None \<Rightarrow> None | Some s' \<Rightarrow> forEachM body xs s')"

text \<open>\<^verbatim>\<open>Array.prototype.findIndex\<close>; \<open>None\<close> is the returned \<^verbatim>\<open>-1\<close>.\<close>

fun findIndex :: "('a \<Rightarrow> bool) \<Rightarrow> 'a list \<Rightarrow> nat option" where
  "findIndex P [] = None"
| "findIndex P (x # xs) = (if P x then Some 0 else map_option Suc (findIndex P xs))"

text \<open>
  \<^verbatim>\<open>deleteTodo\<close>: the inner \<^verbatim>\<open>deleteRecursive\<close> recurses over the children of a
  todo and has no guard against a cycle of parent links, so it takes fuel (the
  depth of the call stack it may use).
\<close>

primrec deleteRecursive :: "nat \<Rightarrow> string \<Rightarrow> Todo list \<Rightarrow> Todo list option" where
  "deleteRecursive 0 todoId todos = None"
| "deleteRecursive (Suc n) todoId todos =
     (let children = filter (\<lambda>t. t_parentId t = Some todoId) todos in
      case forEachM (\<lambda>child. deleteRecursive n (t_id child)) children todos of
        None \<Rightarrow> None
      | Some todos' \<Rightarrow> Some (filter (\<lambda>t. t_id t \<noteq> todoId) todos'))"

definition deleteTodo :: "nat \<Rightarrow> Todo list \<Rightarrow> string \<Rightarrow> Todo list option" where
  "deleteTodo n todos ident = deleteRecursive n ident todos"

text \<open>
  \<^verbatim>\<open>clearCheckedTodos\<close>: \<^verbatim>\<open>markForDeletion\<close> adds an id to the set
  \<^verbatim>\<open>toDelete\<close> and recurses over the children, again without a guard against
  cycles.
\<close>

primrec markForDeletion :: "nat \<Rightarrow> Todo list \<Rightarrow> string \<Rightarrow> string set \<Rightarrow> string set option" where
  "markForDeletion 0 todos todoId toDelete = None"
| "markForDeletion (Suc n) todos todoId toDelete =
     (let children = filter (\<lambda>t. t_parentId t = Some todoId) todos in
      forEachM (\<lambda>child. markForDeletion n todos (t_id child)) children (insert todoId toDelete))"

definition clearCheckedTodos :: "nat \<Rightarrow> Todo list \<Rightarrow> Todo list option" where
  "clearCheckedTodos n todos =
     (case forEachM (\<lambda>t toDelete. if t_done t then markForDeletion n todos (t_id t) toDelete
                                   else Some toDelete) todos {} of
        None \<Rightarrow> None
      | Some toDelete \<Rightarrow>
          if toDelete = {} then Some todos
          else Some (filter (\<lambda>t. t_id t \<notin> toDelete) todos))"

text \<open>
  \<^verbatim>\<open>reorderTodo\<close>: the dragged todo is spliced out of the array and spliced in
  at the index the target had before, and every todo of the array is given
  its index as its order.
\<close>

definition reorderTodo :: "Todo list \<Rightarrow> string \<Rightarrow> string \<Rightarrow> Todo list" where
  "reorderTodo todos draggedId targetId =
     (case findIndex (\<lambda>t. t_id t = draggedId) todos of
        None \<Rightarrow> todos
      | Some draggedIndex \<Rightarrow>
          (case findIndex (\<lambda>t. t_id t = targetId) todos of
             None \<Rightarrow> todos
           | Some targetIndex \<Rightarrow>
               (let draggedTodo = todos ! draggedIndex;
                    removed = take draggedIndex todos @ drop (Suc draggedIndex) todos;
                    inserted = take targetIndex removed @ draggedTodo # drop targetIndex removed
                in map (\<lambda>(index, todo). todo\<lparr>t_order := int index\<rparr>) (enumerate 0 inserted))))"

section \<open>BookmarkService\<close>

text \<open>
  The service mutates the objects of its two arrays in place.  Every object sits
  in exactly one slot of one array, so an object is addressed by its array and
  its index; \<^verbatim>\<open>getFolderSiblings\<close> returns the folders, then the bookmarks, of a
  parent, as such references.
\<close>

datatype item_ref = FolderRef nat | BookmarkRef nat

definition order_of :: "BookmarkService \<Rightarrow> item_ref \<Rightarrow> int" where
  "order_of st r = (case r of FolderRef i \<Rightarrow> f_order (folders st ! i)
                            | BookmarkRef j \<Rightarrow> b_order (bookmarks st ! j))"

definition set_order :: "item_ref \<Rightarrow> int \<Rightarrow> BookmarkService \<Rightarrow> BookmarkService" where
  "set_order r v st =
     (case r of
        FolderRef i \<Rightarrow> st\<lparr>folders := (folders st)[i := (folders st ! i)\<lparr>f_order := v\<rparr>]\<rparr>
      | BookmarkRef j \<Rightarrow> st\<lparr>bookmarks := (bookmarks st)[j := (bookmarks st ! j)\<lparr>b_order := v\<rparr>]\<rparr>)"

definition getFolderSiblings :: "BookmarkService \<Rightarrow> string option \<Rightarrow> item_ref list" where
  "getFolderSiblings st parentId =
     map FolderRef (filter (\<lambda>i. f_parentId (folders st ! i) = parentId) [0..<length (folders st)]) @
     map BookmarkRef (filter (\<lambda>j. b_parentId (bookmarks st ! j) = parentId) [0..<length (bookmarks st)])"

text \<open>\<^verbatim>\<open>siblings.length > 0 ? Math.max(...siblings.map(s => s.order)) : -1\<close>\<close>

definition maxOrder :: "BookmarkService \<Rightarrow> item_ref list \<Rightarrow> int" where
  "maxOrder st siblings =
     (if length siblings > 0 then Max (set (map (order_of st) siblings)) else - 1)"

text \<open>
  The block \<^verbatim>\<open>siblings.sort((a, b) => a.order - b.order);
  siblings.forEach((item, index) => { item.order = index; })\<close> that follows every
  delete and move.  The sort is stable, as \<open>sort_key\<close> is.
\<close>

definition normalizeSiblings :: "BookmarkService \<Rightarrow> string option \<Rightarrow> BookmarkService" where
  "normalizeSiblings st parentId =
     (let siblings = sort_key (order_of st) (getFolderSiblings st parentId) in
      fold (\<lambda>(index, item). set_order item (int index)) (enumerate 0 siblings) st)"

definition addBookmark ::
  "BookmarkService \<Rightarrow> string \<Rightarrow> int \<Rightarrow> string \<Rightarrow> string \<Rightarrow> int \<Rightarrow> BookmarkService \<times> Bookmark" where
  "addBookmark st fileUri line txt newId now =
     (let siblings = getFolderSiblings st None;
          newBookmark = \<lparr> b_id = newId, b_fileUri = fileUri, b_line = line, b_text = trim txt,
                          b_createdAt = now, b_updatedAt = now,
                          b_order = maxOrder st siblings + 1,
                          b_color = None, b_parentId = None \<rparr>
      in (st\<lparr>bookmarks := bookmarks st @ [newBookmark]\<rparr>, newBookmark))"

definition editBookmark :: "BookmarkService \<Rightarrow> string \<Rightarrow> string \<Rightarrow> int \<Rightarrow> BookmarkService" where
  "editBookmark st ident txt now =
     (case findIndex (\<lambda>b. b_id b = ident) (bookmarks st) of
        None \<Rightarrow> st
      | Some i \<Rightarrow> st\<lparr>bookmarks :=
          (bookmarks st)[i := (bookmarks st ! i)\<lparr>b_text := trim txt, b_updatedAt := now\<rparr>]\<rparr>)"

definition getBookmarkForLine :: "BookmarkService \<Rightarrow> string \<Rightarrow> int \<Rightarrow> Bookmark option" where
  "getBookmarkForLine st fileUri line =
     find (\<lambda>b. b_fileUri b = fileUri \<and> b_line b = line) (bookmarks st)"

text \<open>
  The command \<^verbatim>\<open>vs-codebench.addBookmark\<close> for an editor on \<open>fileUri\<close> with the
  cursor on \<open>line\<close>, whose trimmed text is \<open>lineText\<close>; \<open>input\<close> is what the input
  box returned (\<open>None\<close> when the user cancelled).  The first component is the
  message shown, if any.
\<close>

definition addBookmark_command ::
  "BookmarkService \<Rightarrow> string \<Rightarrow> int \<Rightarrow> string \<Rightarrow> string option \<Rightarrow> string \<Rightarrow> int \<Rightarrow> string option \<times> BookmarkService" where
  "addBookmark_command st fileUri line lineText input newId now =
     (case validateTotalCount_bookmark (bookmarks st) of
        Some countError \<Rightarrow> (Some countError, st)
      | None \<Rightarrow>
          (case getBookmarkForLine st fileUri line of
             Some existingBookmark \<Rightarrow> (Some ''Bookmark already exists at this line'', st)
           | None \<Rightarrow>
               (case input of
                  None \<Rightarrow> (None, st)
                | Some txt \<Rightarrow>
                    (None, fst (addBookmark st fileUri line (if txt = [] then lineText else txt) newId now)))))"

definition deleteBookmark :: "BookmarkService \<Rightarrow> string \<Rightarrow> BookmarkService" where
  "deleteBookmark st ident =
     (case find (\<lambda>b. b_id b = ident) (bookmarks st) of
        None \<Rightarrow> st
      | Some bookmark \<Rightarrow>
          normalizeSiblings (st\<lparr>bookmarks := filter (\<lambda>b. b_id b \<noteq> ident) (bookmarks st)\<rparr>)
            (b_parentId bookmark))"

text \<open>
  The command \<^verbatim>\<open>vs-codebench.toggleBookmark\<close> for an editor on a file, from the
  point where the uri and the line are known; \<open>lineAt\<close> is the text of the line in
  the document.  A bookmark found on the line, or else on the line before, is
  deleted; otherwise one is created.  The command validates no count and shows
  no message on either path.
\<close>

definition toggleBookmark_command ::
  "BookmarkService \<Rightarrow> string \<Rightarrow> int \<Rightarrow> string \<Rightarrow> string \<Rightarrow> int \<Rightarrow> BookmarkService" where
  "toggleBookmark_command st fileUri line lineAt newId now =
     (let onLine = getBookmarkForLine st fileUri line;
          existingBookmark = (if onLine = None \<and> line > 0
                              then getBookmarkForLine st fileUri (line - 1) else onLine)
      in case existingBookmark of
           Some b \<Rightarrow> deleteBookmark st (b_id b)
         | None \<Rightarrow> (let lineText = trim lineAt
                    in fst (addBookmark st fileUri line lineText newId now)))"

definition addFolder ::
  "BookmarkService \<Rightarrow> string \<Rightarrow> string option \<Rightarrow> string \<Rightarrow> int \<Rightarrow> BookmarkService \<times> BookmarkFolder" where
  "addFolder st nm parentId newId now =
     (let siblings = getFolderSiblings st parentId;
          newFolder = \<lparr> f_id = newId, f_name = trim nm, f_parentId = parentId,
                        f_createdAt = now, f_updatedAt = now,
                        f_order = maxOrder st siblings + 1, f_isExpanded = Some True \<rparr>
      in (st\<lparr>folders := folders st @ [newFolder]\<rparr>, newFolder))"

definition editFolder :: "BookmarkService \<Rightarrow> string \<Rightarrow> string \<Rightarrow> int \<Rightarrow> BookmarkService" where
  "editFolder st ident nm now =
     (case findIndex (\<lambda>f. f_id f = ident) (folders st) of
        None \<Rightarrow> st
      | Some i \<Rightarrow> st\<lparr>folders :=
          (folders st)[i := (folders st ! i)\<lparr>f_name := trim nm, f_updatedAt := now\<rparr>]\<rparr>)"

text \<open>
  \<^verbatim>\<open>deleteFolderRecursive\<close>, \<^verbatim>\<open>countFolderItems\<close> and \<^verbatim>\<open>getMaxFolderDepth\<close>
  recurse over the subfolders of a folder without a guard against a cycle of
  parent links: they take fuel.
\<close>

primrec deleteFolderRecursive :: "nat \<Rightarrow> string \<Rightarrow> BookmarkService \<Rightarrow> BookmarkService option" where
  "deleteFolderRecursive 0 folderId st = None"
| "deleteFolderRecursive (Suc n) folderId st =
     (let st1 = st\<lparr>bookmarks := filter (\<lambda>b. b_parentId b \<noteq> Some folderId) (bookmarks st)\<rparr>;
          subfolders = filter (\<lambda>f. f_parentId f = Some folderId) (folders st1)
      in case forEachM (\<lambda>subfolder. deleteFolderRecursive n (f_id subfolder)) subfolders st1 of
           None \<Rightarrow> None
         | Some st2 \<Rightarrow> Some (st2\<lparr>folders := filter (\<lambda>f. f_id f \<noteq> folderId) (folders st2)\<rparr>))"

definition deleteFolder :: "nat \<Rightarrow> BookmarkService \<Rightarrow> string \<Rightarrow> BookmarkService option" where
  "deleteFolder n st ident =
     (case find (\<lambda>f. f_id f = ident) (folders st) of
        None \<Rightarrow> Some st
      | Some folder \<Rightarrow>
          (case deleteFolderRecursive n ident st of
             None \<Rightarrow> None
           | Some st' \<Rightarrow> Some (normalizeSiblings st' (f_parentId folder))))"

primrec countFolderItems :: "nat \<Rightarrow> BookmarkService \<Rightarrow> string \<Rightarrow> nat option" where
  "countFolderItems 0 st folderId = None"
| "countFolderItems (Suc n) st folderId =
     (let subfolders = filter (\<lambda>f. f_parentId f = Some folderId) (folders st) in
      forEachM (\<lambda>subfolder count.
                  case countFolderItems n st (f_id subfolder) of
                    None \<Rightarrow> None
                  | Some c \<Rightarrow> Some (count + 1 + c))
        subfolders (length (filter (\<lambda>b. b_parentId b = Some folderId) (bookmarks st))))"

primrec getMaxFolderDepth :: "nat \<Rightarrow> BookmarkService \<Rightarrow> string \<Rightarrow> nat option" where
  "getMaxFolderDepth 0 st folderId = None"
| "getMaxFolderDepth (Suc n) st folderId =
     (let subfolders = filter (\<lambda>f. f_parentId f = Some folderId) (folders st) in
      forEachM (\<lambda>subfolder maxDepth.
                  case getMaxFolderDepth n st (f_id subfolder) of
                    None \<Rightarrow> None
                  | Some subfolderDepth \<Rightarrow> Some (max maxDepth (subfolderDepth + 1)))
        subfolders 1)"

text \<open>
  The two \<^verbatim>\<open>while (currentId)\<close> loops walk up the parent links and do not end on
  a cycle; one unit of fuel is one evaluation of the loop condition.
\<close>

primrec getFolderDepth_loop :: "nat \<Rightarrow> BookmarkFolder list \<Rightarrow> string option \<Rightarrow> nat \<Rightarrow> nat option" where
  "getFolderDepth_loop 0 fs currentId depth = None"
| "getFolderDepth_loop (Suc n) fs currentId depth =
     (if truthy currentId then
        (case find (\<lambda>f. Some (f_id f) = currentId) fs of
           Some folder \<Rightarrow>
             if truthy (f_parentId folder)
             then getFolderDepth_loop n fs (f_parentId folder) (depth + 1)
             else getFolderDepth_loop n fs None depth
         | None \<Rightarrow> getFolderDepth_loop n fs None depth)
      else Some depth)"

definition getFolderDepth :: "nat \<Rightarrow> BookmarkService \<Rightarrow> string \<Rightarrow> nat option" where
  "getFolderDepth n st folderId = getFolderDepth_loop n (folders st) (Some folderId) 1"

primrec isDescendantOf_loop :: "nat \<Rightarrow> BookmarkFolder list \<Rightarrow> string option \<Rightarrow> string \<Rightarrow> bool option" where
  "isDescendantOf_loop 0 fs currentId ancestorId = None"
| "isDescendantOf_loop (Suc n) fs currentId ancestorId =
     (if truthy currentId then
        (if currentId = Some ancestorId then Some True
         else isDescendantOf_loop n fs
                (case find (\<lambda>f. Some (f_id f) = currentId) fs of
                   Some folder \<Rightarrow> f_parentId folder
                 | None \<Rightarrow> None)
                ancestorId)
      else Some False)"

definition isDescendantOf :: "nat \<Rightarrow> BookmarkService \<Rightarrow> string \<Rightarrow> string \<Rightarrow> bool option" where
  "isDescendantOf n st possibleDescendantId ancestorId =
     isDescendantOf_loop n (folders st) (Some possibleDescendantId) ancestorId"

text \<open>
  The validation that \<^verbatim>\<open>moveToFolder\<close> and \<^verbatim>\<open>reorderItem\<close> both run before they
  move a folder: the cycle check, then the depth check, each only for a truthy
  target.  The result \<open>Some (Some msg)\<close> is \<^verbatim>\<open>throw new Error(msg)\<close>, \<open>Some None\<close>
  is no error, and \<open>None\<close> is a check that ran out of fuel.
\<close>

definition validateFolderMove :: "nat \<Rightarrow> BookmarkService \<Rightarrow> string \<Rightarrow> string option \<Rightarrow> string option option" where
  "validateFolderMove n st folderId targetFolderId =
     (case targetFolderId of
        None \<Rightarrow> Some None
      | Some target \<Rightarrow>
          if \<not> truthy (Some target) then Some None
          else
            (case isDescendantOf n st target folderId of
               None \<Rightarrow> None
             | Some True \<Rightarrow> Some (Some ''Cannot move folder into itself or its subfolders'')
             | Some False \<Rightarrow>
                 (case getFolderDepth n st target of
                    None \<Rightarrow> None
                  | Some targetDepth \<Rightarrow>
                      (case getMaxFolderDepth n st folderId of
                         None \<Rightarrow> None
                       | Some folderDepth \<Rightarrow>
                           if targetDepth + folderDepth > 3
                           then Some (Some ''Moving this folder would exceed maximum depth (3 levels)'')
                           else Some None))))"

text \<open>
  \<^verbatim>\<open>moveToFolder\<close>.  A result \<open>Some (err, st')\<close> carries the thrown error, if
  any, and the service state the call leaves behind.
\<close>

definition moveToFolder ::
  "nat \<Rightarrow> BookmarkService \<Rightarrow> string \<Rightarrow> string option \<Rightarrow> int \<Rightarrow> (string option \<times> BookmarkService) option" where
  "moveToFolder n st itemId targetFolderId now =
     (case findIndex (\<lambda>b. b_id b = itemId) (bookmarks st) of
        Some i \<Rightarrow>
          (let sourceParentId = b_parentId (bookmarks st ! i);
               targetSiblings = getFolderSiblings st targetFolderId;
               st1 = st\<lparr>bookmarks := (bookmarks st)[i := (bookmarks st ! i)
                        \<lparr>b_parentId := targetFolderId, b_updatedAt := now,
                         b_order := maxOrder st targetSiblings + 1\<rparr>]\<rparr>
           in Some (None, if sourceParentId \<noteq> targetFolderId
                          then normalizeSiblings st1 sourceParentId else st1))
      | None \<Rightarrow>
          (case findIndex (\<lambda>f. f_id f = itemId) (folders st) of
             None \<Rightarrow> Some (None, st)
           | Some i \<Rightarrow>
               (case validateFolderMove n st itemId targetFolderId of
                  None \<Rightarrow> None
                | Some (Some msg) \<Rightarrow> Some (Some msg, st)
                | Some None \<Rightarrow>
                    (let sourceParentId = f_parentId (folders st ! i);
                         targetSiblings = getFolderSiblings st targetFolderId;
                         st1 = st\<lparr>folders := (folders st)[i := (folders st ! i)
                                  \<lparr>f_parentId := targetFolderId, f_updatedAt := now,
                                   f_order := maxOrder st targetSiblings + 1\<rparr>]\<rparr>
                     in Some (None, if sourceParentId \<noteq> targetFolderId
                                    then normalizeSiblings st1 sourceParentId else st1)))))"

text \<open>
  \<^verbatim>\<open>reorderItem\<close> takes the dragged object out of its array, so the items of the
  target parent are handled as values: \<open>allItems\<close> is a list of tagged objects,
  from which the two arrays are rebuilt.
\<close>

datatype tree_item = FolderItem BookmarkFolder | BookmarkItem Bookmark

fun item_id :: "tree_item \<Rightarrow> string" where
  "item_id (FolderItem f) = f_id f"
| "item_id (BookmarkItem b) = b_id b"

fun item_order :: "tree_item \<Rightarrow> int" where
  "item_order (FolderItem f) = f_order f"
| "item_order (BookmarkItem b) = b_order b"

fun item_set_order :: "int \<Rightarrow> tree_item \<Rightarrow> tree_item" where
  "item_set_order v (FolderItem f) = FolderItem (f\<lparr>f_order := v\<rparr>)"
| "item_set_order v (BookmarkItem b) = BookmarkItem (b\<lparr>b_order := v\<rparr>)"

fun item_parentId :: "tree_item \<Rightarrow> string option" where
  "item_parentId (FolderItem f) = f_parentId f"
| "item_parentId (BookmarkItem b) = b_parentId b"

text \<open>\<^verbatim>\<open>item.parentId = targetParentId; item.updatedAt = Date.now()\<close>\<close>

fun item_reparent :: "string option \<Rightarrow> int \<Rightarrow> tree_item \<Rightarrow> tree_item" where
  "item_reparent p now (FolderItem f) = FolderItem (f\<lparr>f_parentId := p, f_updatedAt := now\<rparr>)"
| "item_reparent p now (BookmarkItem b) = BookmarkItem (b\<lparr>b_parentId := p, b_updatedAt := now\<rparr>)"

text \<open>The two type guards that split \<open>allItems\<close> back: a bookmark is an object with a
  \<^verbatim>\<open>fileUri\<close>, a folder one with a \<^verbatim>\<open>name\<close> and no \<^verbatim>\<open>fileUri\<close>.\<close>

fun as_bookmark :: "tree_item \<Rightarrow> Bookmark option" where
  "as_bookmark (BookmarkItem b) = Some b"
| "as_bookmark (FolderItem f) = None"

fun as_folder :: "tree_item \<Rightarrow> BookmarkFolder option" where
  "as_folder (FolderItem f) = Some f"
| "as_folder (BookmarkItem b) = None"

text \<open>\<^verbatim>\<open>bookmark ?? folder\<close>, and \<^verbatim>\<open>bookmark ? bookmark.parentId : folder!.parentId\<close>:
  the bookmark wins when both arrays hold the id.\<close>

definition firstItem :: "Bookmark option \<Rightarrow> BookmarkFolder option \<Rightarrow> tree_item option" where
  "firstItem b f = (case b of Some x \<Rightarrow> Some (BookmarkItem x) | None \<Rightarrow> map_option FolderItem f)"

datatype drop_position = Before | After

text \<open>The blocks of \<^verbatim>\<open>reorderItem\<close>, in the order of the source.  First the dragged
  object leaves its array (all objects of that array with its id do).\<close>

definition removeDragged :: "BookmarkService \<Rightarrow> tree_item \<Rightarrow> BookmarkService" where
  "removeDragged st dragged =
     (case dragged of
        BookmarkItem b \<Rightarrow> st\<lparr>bookmarks := filter (\<lambda>x. b_id x \<noteq> b_id b) (bookmarks st)\<rparr>
      | FolderItem f \<Rightarrow> st\<lparr>folders := filter (\<lambda>x. f_id x \<noteq> f_id f) (folders st)\<rparr>)"

text \<open>\<^verbatim>\<open>allItems\<close>: the folders, then the bookmarks, of the target parent, sorted by
  order.\<close>

definition itemsInParent :: "BookmarkService \<Rightarrow> string option \<Rightarrow> tree_item list" where
  "itemsInParent st targetParentId =
     (let foldersInParent = filter (\<lambda>f. f_parentId f = targetParentId) (folders st);
          bookmarksInParent = filter (\<lambda>b. b_parentId b = targetParentId) (bookmarks st)
      in sort_key item_order (map FolderItem foldersInParent @ map BookmarkItem bookmarksInParent))"

text \<open>
  The target is located in \<open>allItems\<close>, the dragged item spliced in before or
  after it, and every item given its index as order.  \<open>None\<close> is
  \<^verbatim>\<open>targetIndex === -1\<close>.
\<close>

definition insertRelative ::
  "tree_item list \<Rightarrow> tree_item \<Rightarrow> string \<Rightarrow> drop_position \<Rightarrow> tree_item list option" where
  "insertRelative allItems draggedItem targetId dropPosition =
     (case findIndex (\<lambda>item. item_id item = targetId) allItems of
        None \<Rightarrow> None
      | Some targetIndex \<Rightarrow>
          (let insertIndex = (if dropPosition = After then targetIndex + 1 else targetIndex);
               spliced = take insertIndex allItems @ [draggedItem] @ drop insertIndex allItems
           in Some (map (\<lambda>(index, item). item_set_order (int index) item) (enumerate 0 spliced))))"

text \<open>The two arrays are rebuilt: the objects outside the target parent, then the
  bookmarks (folders) among the items.\<close>

definition splitBack :: "BookmarkService \<Rightarrow> string option \<Rightarrow> tree_item list \<Rightarrow> BookmarkService" where
  "splitBack st targetParentId allItems =
     \<lparr> bookmarks = filter (\<lambda>b. b_parentId b \<noteq> targetParentId) (bookmarks st)
                     @ List.map_filter as_bookmark allItems,
       folders = filter (\<lambda>f. f_parentId f \<noteq> targetParentId) (folders st)
                   @ List.map_filter as_folder allItems \<rparr>"

definition reorderItem ::
  "nat \<Rightarrow> BookmarkService \<Rightarrow> string \<Rightarrow> string \<Rightarrow> drop_position \<Rightarrow> int \<Rightarrow> (string option \<times> BookmarkService) option" where
  "reorderItem n st draggedId targetId dropPosition now =
     (let draggedBookmark = find (\<lambda>b. b_id b = draggedId) (bookmarks st);
          draggedFolder = find (\<lambda>f. f_id f = draggedId) (folders st)
      in case firstItem draggedBookmark draggedFolder of
           None \<Rightarrow> Some (Some ''Dragged item not found'', st)
         | Some dragged \<Rightarrow>
     (let targetBookmark = find (\<lambda>b. b_id b = targetId) (bookmarks st);
          targetFolder = find (\<lambda>f. f_id f = targetId) (folders st)
      in case firstItem targetBookmark targetFolder of
           None \<Rightarrow> Some (Some ''Target item not found'', st)
         | Some target \<Rightarrow>
     (let sourceParentId = item_parentId dragged;
          targetParentId = item_parentId target
      in case (case draggedFolder of None \<Rightarrow> Some None
               | Some f \<Rightarrow> validateFolderMove n st (f_id f) targetParentId) of
           None \<Rightarrow> None
         | Some (Some msg) \<Rightarrow> Some (Some msg, st)
         | Some None \<Rightarrow>
     (let st1 = removeDragged st dragged;
          draggedItem = item_reparent targetParentId now dragged;
          st2 = (if sourceParentId \<noteq> targetParentId then normalizeSiblings st1 sourceParentId else st1);
          allItems = itemsInParent st2 targetParentId
      in case insertRelative allItems draggedItem targetId dropPosition of
           None \<Rightarrow> Some (Some ''Target not found in items list'', st2)
         | Some renumbered \<Rightarrow> Some (None, splitBack st2 targetParentId renumbered)))))"

subsection \<open>Reconciling bookmarks with a document change\<close>

text \<open>
  \<^verbatim>\<open>handleTextDocumentChange\<close> takes a snapshot \<^verbatim>\<open>bookmarksInFile\<close> of bookmark
  objects, then both mutates these objects and replaces \<^verbatim>\<open>this.bookmarks\<close> by
  filtered copies, so an object of the snapshot can have left the array.  The
  model keeps the objects in a store \<open>objs\<close>, addressed by the index they had in
  \<^verbatim>\<open>this.bookmarks\<close> when the call began; \<open>live\<close> is \<^verbatim>\<open>this.bookmarks\<close> as a list
  of addresses.  A content change is its range's start and end and its text.
\<close>

record ContentChange =
  c_startLine :: int
  c_startCharacter :: int
  c_endLine :: int
  c_endCharacter :: int
  c_text :: string

record DocChangeState =
  objs :: "Bookmark list"
  live :: "nat list"
  modified :: bool

text \<open>\<^verbatim>\<open>s.split(sep)\<close> for a one-character separator.\<close>

fun split_on :: "char \<Rightarrow> string \<Rightarrow> string list" where
  "split_on sep [] = [[]]"
| "split_on sep (c # cs) =
     (if c = sep then [] # split_on sep cs
      else (case split_on sep cs of
              [] \<Rightarrow> [[c]]
            | piece # pieces \<Rightarrow> (c # piece) # pieces))"

definition linesDelta_of :: "ContentChange \<Rightarrow> int" where
  "linesDelta_of change =
     int (length (split_on (CHR 0x0A) (c_text change))) - 1 - (c_endLine change - c_startLine change)"

definition remove_live :: "nat \<Rightarrow> DocChangeState \<Rightarrow> DocChangeState" where
  "remove_live a s =
     s\<lparr>live := filter (\<lambda>x. b_id (objs s ! x) \<noteq> b_id (objs s ! a)) (live s), modified := True\<rparr>"

definition set_line :: "nat \<Rightarrow> int \<Rightarrow> int \<Rightarrow> DocChangeState \<Rightarrow> DocChangeState" where
  "set_line a l now s =
     s\<lparr>objs := (objs s)[a := (objs s ! a)\<lparr>b_line := l, b_updatedAt := now\<rparr>], modified := True\<rparr>"

text \<open>The body of the inner loop, for the bookmark object at address \<open>a\<close>.\<close>

definition processBookmark :: "string \<Rightarrow> int \<Rightarrow> ContentChange \<Rightarrow> nat \<Rightarrow> DocChangeState \<Rightarrow> DocChangeState" where
  "processBookmark uri now change a s =
     (let startLine = c_startLine change;
          endLine = c_endLine change;
          linesDelta = linesDelta_of change;
          line = b_line (objs s ! a)
      in if line > endLine then set_line a (line + linesDelta) now s
         else if line \<ge> startLine \<and> line \<le> endLine then
           (if linesDelta < 0 then remove_live a s else s)
         else if line = startLine \<and> linesDelta > 0 \<and> c_startCharacter change = 0 then
           set_line a (line + linesDelta) now s
         else if line = startLine \<and> linesDelta < 0 \<and> c_startCharacter change = 0 then
           (let targetLine = line - 1 in
            if targetLine \<ge> 0 then
              (case find (\<lambda>x. b_fileUri (objs s ! x) = uri \<and> b_line (objs s ! x) = targetLine) (live s) of
                 None \<Rightarrow> set_line a targetLine now s
               | Some existingBookmark \<Rightarrow> remove_live a s)
            else remove_live a s)
         else s)"

definition processChange :: "string \<Rightarrow> int \<Rightarrow> nat list \<Rightarrow> ContentChange \<Rightarrow> DocChangeState \<Rightarrow> DocChangeState" where
  "processChange uri now bookmarksInFile change s =
     (if linesDelta_of change \<noteq> 0
      then fold (processBookmark uri now change) (rev bookmarksInFile) s
      else s)"

definition handleTextDocumentChange ::
  "BookmarkService \<Rightarrow> string \<Rightarrow> ContentChange list \<Rightarrow> int \<Rightarrow> bool \<times> BookmarkService" where
  "handleTextDocumentChange st uri contentChanges now =
     (let bookmarksInFile = filter (\<lambda>a. b_fileUri (bookmarks st ! a) = uri) [0..<length (bookmarks st)]
      in if length bookmarksInFile = 0 then (False, st)
         else
           (let s = fold (processChange uri now bookmarksInFile) contentChanges
                      \<lparr> objs = bookmarks st, live = [0..<length (bookmarks st)], modified = False \<rparr>
            in (modified s, st\<lparr>bookmarks := map (\<lambda>a. objs s ! a) (live s)\<rparr>)))"

text \<open>\<^verbatim>\<open>handleFileDeleted\<close>: the bookmarks of every deleted file leave the array.\<close>

definition handleFileDeleted :: "BookmarkService \<Rightarrow> string list \<Rightarrow> bool \<times> BookmarkService" where
  "handleFileDeleted st files =
     fold (\<lambda>fileUri (changed, s).
             (let bookmarksToDelete = filter (\<lambda>b. b_fileUri b = fileUri) (bookmarks s)
              in if length bookmarksToDelete > 0
                 then (True, s\<lparr>bookmarks := filter (\<lambda>b. b_fileUri b \<noteq> fileUri) (bookmarks s)\<rparr>)
                 else (changed, s)))
       files (False, st)"

section \<open>The properties of the specification\<close>

text \<open>
  The order values of the children of a parent \<open>P\<close>, folders and bookmarks
  together, and the density invariant of the specification: sorted, they are
  \<open>0, 1, ..., k - 1\<close>.
\<close>

definition sibling_orders :: "BookmarkService \<Rightarrow> string option \<Rightarrow> int list" where
  "sibling_orders st P =
     map f_order (filter (\<lambda>f. f_parentId f = P) (folders st)) @
     map b_order (filter (\<lambda>b. b_parentId b = P) (bookmarks st))"

definition dense_orders :: "int list \<Rightarrow> bool" where
  "dense_orders os = (sort os = map int [0..<length os])"

definition dense :: "BookmarkService \<Rightarrow> string option \<Rightarrow> bool" where
  "dense st P = dense_orders (sibling_orders st P)"

definition todo_sibling_orders :: "Todo list \<Rightarrow> string option \<Rightarrow> int list" where
  "todo_sibling_orders todos P = map t_order (filter (\<lambda>t. t_parentId t = P) todos)"

definition todo_dense :: "Todo list \<Rightarrow> string option \<Rightarrow> bool" where
  "todo_dense todos P = dense_orders (todo_sibling_orders todos P)"

text \<open>The order \<^verbatim>\<open>append(parent)\<close> of the specification gives a new child:
  one more than the greatest order among the siblings, or 0 when there are none.\<close>

definition append_order :: "int list \<Rightarrow> int" where
  "append_order os = (if os = [] then 0 else Max (set os) + 1)"

text \<open>
  The ids in the subtree of a folder \<open>F\<close>: \<open>F\<close> itself and, with a folder id, the id
  of every folder whose \<^verbatim>\<open>parentId\<close> it is.
\<close>

inductive_set subtree :: "BookmarkFolder list \<Rightarrow> string \<Rightarrow> string set"
  for fs :: "BookmarkFolder list" and F :: string where
  self: "F \<in> subtree fs F"
| child: "f \<in> set fs \<Longrightarrow> f_parentId f = Some p \<Longrightarrow> p \<in> subtree fs F \<Longrightarrow> f_id f \<in> subtree fs F"

text \<open>Ids as \<^verbatim>\<open>uuidv4()\<close> makes them: not empty, and no two objects of an array
  with the same id.\<close>

definition wf_folder_ids :: "BookmarkFolder list \<Rightarrow> bool" where
  "wf_folder_ids fs = (distinct (map f_id fs) \<and> [] \<notin> set (map f_id fs))"

text \<open>
  Chains of parent links, for the depth limit: \<open>descends fs x k y\<close> when \<open>k\<close>
  parent links lead from \<open>y\<close> up to \<open>x\<close>, a link being a \<^verbatim>\<open>parentId\<close> that is
  set and not empty.  The height of \<open>F\<close> is the number of folders on a longest
  chain downwards from \<open>F\<close>, the depth of \<open>T\<close> the number on the longest chain
  upwards from \<open>T\<close>, both ends counted.
\<close>

inductive descends :: "BookmarkFolder list \<Rightarrow> string \<Rightarrow> nat \<Rightarrow> string \<Rightarrow> bool"
  for fs :: "BookmarkFolder list" and x :: string where
  zero: "descends fs x 0 x"
| step: "descends fs x k p \<Longrightarrow> f \<in> set fs \<Longrightarrow> f_parentId f = Some p \<Longrightarrow> p \<noteq> []
     \<Longrightarrow> descends fs x (Suc k) (f_id f)"

definition height_is :: "BookmarkFolder list \<Rightarrow> string \<Rightarrow> nat \<Rightarrow> bool" where
  "height_is fs F h = (\<exists>k. h = Suc k \<and> (\<exists>y. descends fs F k y) \<and> (\<forall>j y. descends fs F j y \<longrightarrow> j \<le> k))"

definition depth_is :: "BookmarkFolder list \<Rightarrow> string \<Rightarrow> nat \<Rightarrow> bool" where
  "depth_is fs T d = (\<exists>k. d = Suc k \<and> (\<exists>a. descends fs a k T) \<and> (\<forall>j a. descends fs a j T \<longrightarrow> j \<le> k))"

text \<open>
  A certificate that the parent links of the folders have no cycle: a rank below
  \<open>n\<close> for every folder id and parent id, smaller for a folder than for its
  parent.
\<close>

definition ranked :: "(string \<Rightarrow> nat) \<Rightarrow> nat \<Rightarrow> BookmarkFolder list \<Rightarrow> bool" where
  "ranked r n fs =
     (\<forall>f \<in> set fs. r (f_id f) < n \<and>
        (case f_parentId f of None \<Rightarrow> True | Some p \<Rightarrow> r (f_id f) < r p \<and> r p < n))"

text \<open>The same for todos, and the todos that have a done ancestor on their
  chain of parent links.\<close>

definition todo_ranked :: "(string \<Rightarrow> nat) \<Rightarrow> nat \<Rightarrow> Todo list \<Rightarrow> bool" where
  "todo_ranked r n todos =
     (\<forall>t \<in> set todos. r (t_id t) < n \<and>
        (case t_parentId t of None \<Rightarrow> True | Some p \<Rightarrow> r (t_id t) < r p))"

inductive has_done_ancestor :: "Todo list \<Rightarrow> Todo \<Rightarrow> bool" for todos :: "Todo list" where
  parent_done: "p \<in> set todos \<Longrightarrow> t_parentId t = Some (t_id p) \<Longrightarrow> t_done p \<Longrightarrow> has_done_ancestor todos t"
| ancestor_done: "p \<in> set todos \<Longrightarrow> t_parentId t = Some (t_id p) \<Longrightarrow> has_done_ancestor todos p
     \<Longrightarrow> has_done_ancestor todos t"

text \<open>The ids below a todo, as \<open>subtree\<close> for folders.\<close>

inductive_set todo_subtree :: "Todo list \<Rightarrow> string \<Rightarrow> string set"
  for todos :: "Todo list" and x :: string where
  self: "x \<in> todo_subtree todos x"
| child: "t \<in> set todos \<Longrightarrow> t_parentId t = Some p \<Longrightarrow> p \<in> todo_subtree todos x
     \<Longrightarrow> t_id t \<in> todo_subtree todos x"

text \<open>
  The store without the folders whose id is in \<open>D\<close> and without the bookmarks
  whose parent is: what a cascading delete of the subtree \<open>D\<close> is to leave.
\<close>

definition without_subtree :: "string set \<Rightarrow> BookmarkService \<Rightarrow> BookmarkService" where
  "without_subtree D st =
     \<lparr> bookmarks = filter (\<lambda>b. b_parentId b \<notin> Some ` D) (bookmarks st),
       folders = filter (\<lambda>f. f_id f \<notin> D) (folders st) \<rparr>"

text \<open>A set of ids is closed when it holds, with an id, the ids of its children.\<close>

definition closed_ids :: "BookmarkFolder list \<Rightarrow> string set \<Rightarrow> bool" where
  "closed_ids fs A = (\<forall>f \<in> set fs. \<forall>p. f_parentId f = Some p \<and> p \<in> A \<longrightarrow> f_id f \<in> A)"

text \<open>The number of folders of a subtree, its root left out, and of the bookmarks
  in its folders.\<close>

definition descendant_count :: "BookmarkService \<Rightarrow> string \<Rightarrow> nat" where
  "descendant_count st x =
     length (filter (\<lambda>f. f_id f \<in> subtree (folders st) x \<and> f_id f \<noteq> x) (folders st)) +
     length (filter (\<lambda>b. b_parentId b \<in> Some ` subtree (folders st) x) (bookmarks st))"

text \<open>
  The operations on the bookmark store that the density invariant is stated
  of, as values: create, rename, toggle, delete, move and reorder.  \<open>run_op\<close>
  gives the thrown error, if any, and the store left behind; \<open>None\<close> is an
  operation that ran out of fuel.  Not among them are the other methods that
  change the store: \<^verbatim>\<open>handleTextDocumentChange\<close> and \<^verbatim>\<open>handleFileDeleted\<close>, which
  take bookmarks out of the array and renumber nothing, \<^verbatim>\<open>changeBookmarkColor\<close>
  and \<^verbatim>\<open>handleFileRenamed\<close>, which write no order and no parent, \<^verbatim>\<open>clearAll\<close>,
  which empties both arrays, and \<^verbatim>\<open>loadBookmarks\<close>, which replaces them by what
  was stored.
\<close>

datatype bookmark_op =
    AddBookmark string int string string int
  | EditBookmark string string int
  | DeleteBookmark string
  | ToggleBookmark string int string string int
  | AddFolder string "string option" string int
  | EditFolder string string int
  | DeleteFolder string
  | MoveToFolder string "string option" int
  | ReorderItem string string drop_position int

fun run_op :: "nat \<Rightarrow> BookmarkService \<Rightarrow> bookmark_op \<Rightarrow> (string option \<times> BookmarkService) option" where
  "run_op n st (AddBookmark fileUri line txt newId now) = Some (None, fst (addBookmark st fileUri line txt newId now))"
| "run_op n st (EditBookmark ident txt now) = Some (None, editBookmark st ident txt now)"
| "run_op n st (DeleteBookmark ident) = Some (None, deleteBookmark st ident)"
| "run_op n st (ToggleBookmark fileUri line lineAt newId now) =
     Some (None, toggleBookmark_command st fileUri line lineAt newId now)"
| "run_op n st (AddFolder nm parentId newId now) = Some (None, fst (addFolder st nm parentId newId now))"
| "run_op n st (EditFolder ident nm now) = Some (None, editFolder st ident nm now)"
| "run_op n st (DeleteFolder ident) = map_option (Pair None) (deleteFolder n st ident)"
| "run_op n st (MoveToFolder itemId targetFolderId now) = moveToFolder n st itemId targetFolderId now"
| "run_op n st (ReorderItem draggedId targetId dropPosition now) = reorderItem n st draggedId targetId dropPosition now"

text \<open>The parent of the object that \<^verbatim>\<open>moveToFolder\<close> takes for an id (a bookmark
  first), and the moves that name the parent the object already has.\<close>

definition current_parent :: "BookmarkService \<Rightarrow> string \<Rightarrow> string option option" where
  "current_parent st itemId =
     (case find (\<lambda>b. b_id b = itemId) (bookmarks st) of
        Some b \<Rightarrow> Some (b_parentId b)
      | None \<Rightarrow> map_option f_parentId (find (\<lambda>f. f_id f = itemId) (folders st)))"

fun same_parent_move :: "BookmarkService \<Rightarrow> bookmark_op \<Rightarrow> bool" where
  "same_parent_move st (MoveToFolder itemId targetFolderId now) = (current_parent st itemId = Some targetFolderId)"
| "same_parent_move st other = False"

text \<open>
  Helpers for stating what an operation leaves alone: the store with every order
  reset, whether a reference points into its array, and the parent of the
  referenced object.
\<close>

definition erase_orders :: "BookmarkService \<Rightarrow> BookmarkService" where
  "erase_orders st =
     \<lparr> bookmarks = map (\<lambda>b. b\<lparr>b_order := 0\<rparr>) (bookmarks st),
       folders = map (\<lambda>f. f\<lparr>f_order := 0\<rparr>) (folders st) \<rparr>"

definition valid_ref :: "BookmarkService \<Rightarrow> item_ref \<Rightarrow> bool" where
  "valid_ref st r = (case r of FolderRef i \<Rightarrow> i < length (folders st)
                             | BookmarkRef j \<Rightarrow> j < length (bookmarks st))"

definition parent_of :: "BookmarkService \<Rightarrow> item_ref \<Rightarrow> string option" where
  "parent_of st r = (case r of FolderRef i \<Rightarrow> f_parentId (folders st ! i)
                             | BookmarkRef j \<Rightarrow> b_parentId (bookmarks st ! j))"

section \<open>Fixtures\<close>

text \<open>Objects and stores for the concrete instances below.\<close>

definition mkTodo :: "string \<Rightarrow> bool \<Rightarrow> int \<Rightarrow> string option \<Rightarrow> Todo" where
  "mkTodo ident d ord p =
     \<lparr> t_id = ident, t_text = ''todo'', t_done = d, t_createdAt = 0, t_updatedAt = 0,
       t_order = ord, t_parentId = p \<rparr>"

definition mkBookmark :: "string \<Rightarrow> int \<Rightarrow> int \<Rightarrow> string option \<Rightarrow> Bookmark" where
  "mkBookmark ident l ord p =
     \<lparr> b_id = ident, b_fileUri = ''file:///test.js'', b_line = l, b_text = ''bookmark'',
       b_createdAt = 0, b_updatedAt = 0, b_order = ord, b_color = None, b_parentId = p \<rparr>"

definition mkFolder :: "string \<Rightarrow> int \<Rightarrow> string option \<Rightarrow> BookmarkFolder" where
  "mkFolder ident ord p =
     \<lparr> f_id = ident, f_name = ''folder'', f_parentId = p, f_createdAt = 0, f_updatedAt = 0,
       f_order = ord, f_isExpanded = Some True \<rparr>"

text \<open>Three nested folders \<open>a > b > c\<close> and a second root folder \<open>d\<close>, with one
  bookmark in \<open>b\<close> and one at the root.\<close>

definition chain_store :: BookmarkService where
  "chain_store =
     \<lparr> bookmarks = [mkBookmark ''x'' 1 0 (Some ''b''), mkBookmark ''y'' 2 2 None],
       folders = [mkFolder ''a'' 0 None, mkFolder ''b'' 0 (Some ''a''),
                  mkFolder ''c'' 1 (Some ''b''), mkFolder ''d'' 1 None] \<rparr>"

text \<open>A store at the ceiling: 200 bookmarks at the root, on the lines 0 to 199 of
  one file, with the ids \<open>b\<close>, \<open>bb\<close>, \<open>bbb\<close> and so on.\<close>

definition full_store :: BookmarkService where
  "full_store =
     \<lparr> bookmarks = map (\<lambda>i. mkBookmark (replicate (Suc i) (CHR ''b'')) (int i) (int i) None) [0..<200],
       folders = [] \<rparr>"

text \<open>Two bookmarks at the root, \<open>g\<close> in one file and \<open>k\<close> in another.\<close>

definition two_file_store :: BookmarkService where
  "two_file_store =
     \<lparr> bookmarks = [(mkBookmark ''g'' 3 0 None)\<lparr>b_fileUri := ''file:///gone.js''\<rparr>,
                    mkBookmark ''k'' 9 1 None],
       folders = [] \<rparr>"

definition chain_rank :: "string \<Rightarrow> nat" where
  "chain_rank ident = (if ident = ''a'' then 2 else if ident = ''b'' then 1 else if ident = ''d'' then 1 else 0)"

text \<open>A done todo \<open>p\<close> with an open child \<open>q\<close> and grandchild \<open>s\<close>, and an open root
  todo \<open>u\<close> with a done child \<open>v\<close>.\<close>

definition todo_list :: "Todo list" where
  "todo_list = [mkTodo ''p'' True 0 None, mkTodo ''q'' False 1 (Some ''p''),
                mkTodo ''s'' False 2 (Some ''q''), mkTodo ''u'' False 3 None,
                mkTodo ''v'' True 4 (Some ''u'')]"

definition todo_rank :: "string \<Rightarrow> nat" where
  "todo_rank ident = (if ident = ''p'' then 2 else if ident = ''q'' then 1
                      else if ident = ''u'' then 1 else 0)"

section \<open>Count ceilings\<close>

text \<open>
  \<^verbatim>\<open>validateTotalCount\<close> returns its error string exactly when the array already
  holds the ceiling (100 todos, 200 bookmarks) and \<^verbatim>\<open>null\<close> otherwise.
\<close>

lemma validateTotalCount_exact:
  "validateTotalCount_todo todos =
     (if length todos \<ge> 100 then Some ''Total Todo count cannot exceed 100.'' else None)
   \<and> validateTotalCount_bookmark bs =
     (if length bs \<ge> 200 then Some ''Total Bookmark count cannot exceed 200.'' else None)"
  by (simp add: validateTotalCount_todo_def validateTotalCount_bookmark_def)

text \<open>
  The commands that validate the count create the 100th todo and the 200th
  bookmark, and on a full array show the message and create nothing.  An empty
  result of the input box creates no todo: the box is shown again.
\<close>

lemma addTodo_command_at_ceiling:
  "(length todos = 99 \<and> input \<noteq> [] \<longrightarrow>
      addTodo_command todos (Some input # inputs) newId now
        = ([], fst (addTodo todos input None newId now))
      \<and> length (snd (addTodo_command todos (Some input # inputs) newId now)) = 100)
   \<and> (length todos \<ge> 100 \<longrightarrow>
      addTodo_command todos inputs newId now = ([''Total Todo count cannot exceed 100.''], todos))
   \<and> (length todos < 100 \<longrightarrow>
      addTodo_command todos (Some [] # inputs) newId now = addTodo_command todos inputs newId now)"
  by (simp add: validateTotalCount_todo_def addTodo_command_def addTodo_prompt_def addTodo_def Let_def)

lemma addBookmark_command_at_ceiling:
  "(length (bookmarks st) = 199 \<and> getBookmarkForLine st uri line = None \<longrightarrow>
        addBookmark_command st uri line lineText (Some input) newId now
          = (None, fst (addBookmark st uri line (if input = [] then lineText else input) newId now))
        \<and> length (bookmarks (snd (addBookmark_command st uri line lineText (Some input) newId now))) = 200)
   \<and> (length (bookmarks st) \<ge> 200 \<longrightarrow>
        addBookmark_command st uri line lineText (Some input) newId now
          = (Some ''Total Bookmark count cannot exceed 200.'', st))"
  by (simp add: validateTotalCount_bookmark_def addBookmark_command_def addBookmark_def Let_def)

text \<open>
  \<^verbatim>\<open>vs-codebench.toggleBookmark\<close> on a line that has no bookmark, and none on the
  line before, creates one, whatever the number of bookmarks.
\<close>

lemma toggleBookmark_creates:
  assumes "getBookmarkForLine st fileUri line = None"
      and "getBookmarkForLine st fileUri (line - 1) = None"
  shows "toggleBookmark_command st fileUri line lineAt newId now
           = fst (addBookmark st fileUri line (trim lineAt) newId now)"
  using assms by (simp add: toggleBookmark_command_def Let_def)

lemma full_store_free_line:
  "200 \<le> l \<Longrightarrow> getBookmarkForLine full_store uri l = None"
  by (auto simp: getBookmarkForLine_def full_store_def mkBookmark_def find_None_iff)

text \<open>
  C8, evaluated on a store that holds 200 bookmarks.  \<^verbatim>\<open>validateTotalCount\<close>
  returns the error string and \<^verbatim>\<open>vs-codebench.addBookmark\<close> shows it and creates
  nothing; \<^verbatim>\<open>vs-codebench.toggleBookmark\<close> on the free line 300 creates the 201st
  bookmark.
\<close>

theorem toggleBookmark_passes_ceiling:
  "length (bookmarks full_store) = 200
   \<and> validateTotalCount_bookmark (bookmarks full_store) = Some ''Total Bookmark count cannot exceed 200.''
   \<and> addBookmark_command full_store ''file:///test.js'' 300 ''line'' (Some ''text'') ''new'' 1
        = (Some ''Total Bookmark count cannot exceed 200.'', full_store)
   \<and> length (bookmarks (toggleBookmark_command full_store ''file:///test.js'' 300 ''line'' ''new'' 1)) = 201
   \<and> last (bookmarks (toggleBookmark_command full_store ''file:///test.js'' 300 ''line'' ''new'' 1))
        = \<lparr> b_id = ''new'', b_fileUri = ''file:///test.js'', b_line = 300, b_text = ''line'',
            b_createdAt = 1, b_updatedAt = 1, b_order = 200, b_color = None, b_parentId = None \<rparr>"
proof -
  have len: "length (bookmarks full_store) = 200" by (simp add: full_store_def)
  have t: "toggleBookmark_command full_store ''file:///test.js'' 300 ''line'' ''new'' 1
           = fst (addBookmark full_store ''file:///test.js'' 300 (trim ''line'') ''new'' 1)"
    by (rule toggleBookmark_creates) (simp_all add: full_store_free_line)
  have tr: "trim ''line'' = ''line''" by (simp add: trim_def is_space_def)
  have sib: "getFolderSiblings full_store None = map BookmarkRef [0..<200]"
    by (simp add: getFolderSiblings_def full_store_def mkBookmark_def)
  have "Max (set (map (order_of full_store) (map BookmarkRef [0..<200]))) = 199"
  proof (rule Max_eqI)
    show "finite (set (map (order_of full_store) (map BookmarkRef [0..<200])))" by simp
    show "y \<le> 199" if "y \<in> set (map (order_of full_store) (map BookmarkRef [0..<200]))" for y
      using that by (auto simp: order_of_def full_store_def mkBookmark_def)
    have "order_of full_store (BookmarkRef 199) = 199"
      by (simp add: order_of_def full_store_def mkBookmark_def)
    moreover have "(199::nat) \<in> set [0..<200]" by simp
    ultimately show "199 \<in> set (map (order_of full_store) (map BookmarkRef [0..<200]))"
      unfolding set_map by (metis imageI)
  qed
  then have mx: "maxOrder full_store (getFolderSiblings full_store None) = 199"
    by (simp add: maxOrder_def sib)
  show ?thesis
    using len t tr mx
    by (simp add: validateTotalCount_bookmark_def addBookmark_command_def addBookmark_def Let_def)
qed

section \<open>Arrays and references\<close>

lemma findIndex_None_iff: "findIndex P xs = None \<longleftrightarrow> (\<forall>x \<in> set xs. \<not> P x)"
  by (induction xs) auto

lemma findIndex_Some:
  "findIndex P xs = Some i \<Longrightarrow> i < length xs \<and> P (xs ! i) \<and> (\<forall>j < i. \<not> P (xs ! j))"
proof (induction xs arbitrary: i)
  case Nil
  then show ?case by simp
next
  case (Cons x xs)
  show ?case
  proof (cases "P x")
    case True
    with Cons.prems show ?thesis by simp
  next
    case False
    with Cons.prems obtain k where k: "findIndex P xs = Some k" "i = Suc k" by auto
    from Cons.IH [OF k(1)] False k(2) show ?thesis
      by (auto simp: nth_Cons split: nat.splits)
  qed
qed

lemma find_distinct_id:
  "distinct (map g xs) \<Longrightarrow> x \<in> set xs \<Longrightarrow> find (\<lambda>y. g y = g x) xs = Some x"
  by (induction xs) (auto simp: image_iff)

lemma nth_filter_upt:
  "map (\<lambda>i. g (xs ! i)) (filter (\<lambda>i. P (xs ! i)) [0..<length xs]) = map g (filter P xs)"
proof (induction xs rule: rev_induct)
  case Nil
  show ?case by simp
next
  case (snoc x xs)
  have a: "filter (\<lambda>i. P ((xs @ [x]) ! i)) [0..<length xs] = filter (\<lambda>i. P (xs ! i)) [0..<length xs]"
    by (rule filter_cong) (auto simp: nth_append)
  have b: "map (\<lambda>i. g ((xs @ [x]) ! i)) (filter (\<lambda>i. P (xs ! i)) [0..<length xs])
         = map (\<lambda>i. g (xs ! i)) (filter (\<lambda>i. P (xs ! i)) [0..<length xs])"
    by (rule map_cong) (auto simp: nth_append)
  show ?case using snoc by (simp add: a b)
qed

text \<open>The orders read through the references of \<^verbatim>\<open>getFolderSiblings\<close> are the
  orders of the children, folders first.\<close>

lemma sibling_orders_refs:
  "map (order_of st) (getFolderSiblings st P) = sibling_orders st P"
  using nth_filter_upt [of f_order "folders st" "\<lambda>f. f_parentId f = P"]
        nth_filter_upt [of b_order "bookmarks st" "\<lambda>b. b_parentId b = P"]
  by (simp add: getFolderSiblings_def sibling_orders_def order_of_def comp_def)

lemma maxOrder_append_order:
  "maxOrder st (getFolderSiblings st P) + 1 = append_order (sibling_orders st P)"
  unfolding maxOrder_def append_order_def
  using sibling_orders_refs [of st P, symmetric] by auto

subsection \<open>set_order\<close>

lemma map_update_same: "g y = g (xs ! i) \<Longrightarrow> map g (xs[i := y]) = map g xs"
  by (cases "i < length xs") (simp_all add: map_update list_update_same_conv list_update_beyond not_less)

lemma erase_orders_set_order: "erase_orders (set_order r v st) = erase_orders st"
  by (cases r) (simp_all add: erase_orders_def set_order_def map_update_same)

lemma valid_ref_set_order: "valid_ref (set_order r v st) r' = valid_ref st r'"
  by (cases r; cases r') (simp_all add: valid_ref_def set_order_def)

lemma order_of_set_order:
  "valid_ref st r \<Longrightarrow> order_of (set_order r v st) r' = (if r' = r then v else order_of st r')"
  by (cases r; cases r') (auto simp: valid_ref_def set_order_def order_of_def nth_list_update)

subsection \<open>The store up to order values\<close>

lemma erase_orders_fields:
  assumes "erase_orders st = erase_orders st'"
  shows "map f_parentId (folders st) = map f_parentId (folders st')"
    and "map f_id (folders st) = map f_id (folders st')"
    and "map b_parentId (bookmarks st) = map b_parentId (bookmarks st')"
    and "map b_id (bookmarks st) = map b_id (bookmarks st')"
    and "length (folders st) = length (folders st')"
    and "length (bookmarks st) = length (bookmarks st')"
proof -
  have f: "map (\<lambda>f. f\<lparr>f_order := 0\<rparr>) (folders st) = map (\<lambda>f. f\<lparr>f_order := 0\<rparr>) (folders st')"
   and b: "map (\<lambda>b. b\<lparr>b_order := 0\<rparr>) (bookmarks st) = map (\<lambda>b. b\<lparr>b_order := 0\<rparr>) (bookmarks st')"
    using assms by (simp_all add: erase_orders_def)
  from arg_cong [OF f, of "map f_parentId"] show "map f_parentId (folders st) = map f_parentId (folders st')"
    by (simp add: comp_def)
  from arg_cong [OF f, of "map f_id"] show "map f_id (folders st) = map f_id (folders st')"
    by (simp add: comp_def)
  from arg_cong [OF b, of "map b_parentId"] show "map b_parentId (bookmarks st) = map b_parentId (bookmarks st')"
    by (simp add: comp_def)
  from arg_cong [OF b, of "map b_id"] show "map b_id (bookmarks st) = map b_id (bookmarks st')"
    by (simp add: comp_def)
  from arg_cong [OF f, of length] show "length (folders st) = length (folders st')" by simp
  from arg_cong [OF b, of length] show "length (bookmarks st) = length (bookmarks st')" by simp
qed

lemma getFolderSiblings_parents:
  "getFolderSiblings st P =
     map FolderRef (filter (\<lambda>i. map f_parentId (folders st) ! i = P) [0..<length (map f_parentId (folders st))]) @
     map BookmarkRef (filter (\<lambda>j. map b_parentId (bookmarks st) ! j = P) [0..<length (map b_parentId (bookmarks st))])"
proof -
  have a: "filter (\<lambda>i. f_parentId (folders st ! i) = P) [0..<length (folders st)]
         = filter (\<lambda>i. map f_parentId (folders st) ! i = P) [0..<length (map f_parentId (folders st))]"
    by (rule filter_cong) auto
  have b: "filter (\<lambda>j. b_parentId (bookmarks st ! j) = P) [0..<length (bookmarks st)]
         = filter (\<lambda>j. map b_parentId (bookmarks st) ! j = P) [0..<length (map b_parentId (bookmarks st))]"
    by (rule filter_cong) auto
  show ?thesis unfolding getFolderSiblings_def a b ..
qed

lemma getFolderSiblings_erase:
  assumes "erase_orders st = erase_orders st'"
  shows "getFolderSiblings st P = getFolderSiblings st' P"
  unfolding getFolderSiblings_parents
  by (simp only: erase_orders_fields(1) [OF assms] erase_orders_fields(3) [OF assms])

lemma getFolderSiblings_valid: "r \<in> set (getFolderSiblings st P) \<Longrightarrow> valid_ref st r \<and> parent_of st r = P"
  by (auto simp: getFolderSiblings_def valid_ref_def parent_of_def)

lemma getFolderSiblings_distinct: "distinct (getFolderSiblings st P)"
  by (auto simp: getFolderSiblings_def distinct_map inj_on_def)

subsection \<open>Renumbering\<close>

lemma renumber_erase:
  "erase_orders (fold (\<lambda>(index, item). set_order item (int index)) ps st) = erase_orders st"
  by (induction ps arbitrary: st) (auto simp: erase_orders_set_order)

lemma renumber_valid:
  "valid_ref (fold (\<lambda>(index, item). set_order item (int index)) ps st) r = valid_ref st r"
proof (induction ps arbitrary: st)
  case Nil
  show ?case by simp
next
  case (Cons p ps)
  obtain k q where p: "p = (k, q)" by (cases p)
  have "valid_ref (fold (\<lambda>(index, item). set_order item (int index)) ps (set_order q (int k) st)) r
        = valid_ref (set_order q (int k) st) r" by (rule Cons.IH)
  then show ?case by (simp add: p valid_ref_set_order)
qed

lemma renumber_other:
  "r \<notin> snd ` set ps \<Longrightarrow> \<forall>q \<in> snd ` set ps. valid_ref st q \<Longrightarrow>
   order_of (fold (\<lambda>(index, item). set_order item (int index)) ps st) r = order_of st r"
proof (induction ps arbitrary: st)
  case Nil
  then show ?case by simp
next
  case (Cons p ps)
  obtain k q where p: "p = (k, q)" by (cases p)
  have "order_of (fold (\<lambda>(index, item). set_order item (int index)) ps (set_order q (int k) st)) r
        = order_of (set_order q (int k) st) r"
    using Cons.prems by (intro Cons.IH) (auto simp: valid_ref_set_order)
  also have "\<dots> = order_of st r" using Cons.prems p by (subst order_of_set_order) auto
  finally show ?case using p by simp
qed

lemma renumber_enumerate:
  "distinct rs \<Longrightarrow> \<forall>q \<in> set rs. valid_ref st q \<Longrightarrow>
   map (order_of (fold (\<lambda>(index, item). set_order item (int index)) (enumerate n rs) st)) rs
     = map int [n..<n + length rs]"
proof (induction rs arbitrary: n st)
  case Nil
  then show ?case by simp
next
  case (Cons q rs)
  let ?st1 = "set_order q (int n) st"
  have tail: "map (order_of (fold (\<lambda>(index, item). set_order item (int index)) (enumerate (Suc n) rs) ?st1)) rs
         = map int [Suc n..<Suc n + length rs]"
    using Cons.prems by (intro Cons.IH) (auto simp: valid_ref_set_order)
  have "order_of (fold (\<lambda>(index, item). set_order item (int index)) (enumerate (Suc n) rs) ?st1) q
         = order_of ?st1 q"
    using Cons.prems by (intro renumber_other) (auto simp: valid_ref_set_order in_set_enumerate_eq)
  also have "\<dots> = int n" using Cons.prems by (simp add: order_of_set_order)
  finally have hd: "order_of (fold (\<lambda>(index, item). set_order item (int index)) (enumerate (Suc n) rs) ?st1) q = int n" .
  have e: "[n..<n + length (q # rs)] = n # [Suc n..<Suc n + length rs]"
    by (simp add: upt_conv_Cons del: upt_Suc)
  show ?case unfolding e using hd tail by (simp del: upt_Suc)
qed

subsection \<open>normalizeSiblings\<close>

lemma normalizeSiblings_erase: "erase_orders (normalizeSiblings st P) = erase_orders st"
  by (simp add: normalizeSiblings_def Let_def renumber_erase)

lemma normalizeSiblings_siblings:
  "getFolderSiblings (normalizeSiblings st P) Q = getFolderSiblings st Q"
  by (rule getFolderSiblings_erase) (rule normalizeSiblings_erase)

lemma normalizeSiblings_order_other:
  assumes "r \<notin> set (getFolderSiblings st P)"
  shows "order_of (normalizeSiblings st P) r = order_of st r"
  unfolding normalizeSiblings_def Let_def
proof (rule renumber_other)
  have s: "snd ` set (enumerate 0 (sort_key (order_of st) (getFolderSiblings st P)))
           = set (getFolderSiblings st P)"
    by (simp only: set_map [symmetric] map_snd_enumerate set_sort)
  show "r \<notin> snd ` set (enumerate 0 (sort_key (order_of st) (getFolderSiblings st P)))"
    unfolding s by (rule assms)
  show "\<forall>q \<in> snd ` set (enumerate 0 (sort_key (order_of st) (getFolderSiblings st P))). valid_ref st q"
    unfolding s by (auto dest: getFolderSiblings_valid)
qed

lemma normalizeSiblings_other_parent:
  assumes "Q \<noteq> P"
  shows "sibling_orders (normalizeSiblings st P) Q = sibling_orders st Q"
proof -
  have "sibling_orders (normalizeSiblings st P) Q
        = map (order_of (normalizeSiblings st P)) (getFolderSiblings st Q)"
    by (simp add: sibling_orders_refs [symmetric] normalizeSiblings_siblings)
  also have "\<dots> = map (order_of st) (getFolderSiblings st Q)"
  proof (rule map_cong [OF refl])
    fix r assume "r \<in> set (getFolderSiblings st Q)"
    then have "r \<notin> set (getFolderSiblings st P)"
      using assms getFolderSiblings_valid by blast
    then show "order_of (normalizeSiblings st P) r = order_of st r"
      by (rule normalizeSiblings_order_other)
  qed
  finally show ?thesis by (simp add: sibling_orders_refs)
qed

lemma dense_orders_mset:
  assumes "mset os = mset (map int [0..<k])"
  shows "dense_orders os"
proof -
  have len: "length os = k" using mset_eq_length [OF assms] by simp
  have "sort os = map int [0..<k]"
    by (rule properties_for_sort) (simp_all add: assms sorted_map)
  then show ?thesis by (simp add: dense_orders_def len)
qed

lemma normalizeSiblings_dense: "dense (normalizeSiblings st P) P"
proof -
  let ?refs = "getFolderSiblings st P"
  let ?sorted = "sort_key (order_of st) ?refs"
  let ?st' = "normalizeSiblings st P"
  have d: "distinct ?sorted" by (simp add: getFolderSiblings_distinct)
  have v: "\<forall>q \<in> set ?sorted. valid_ref st q" by (auto dest: getFolderSiblings_valid)
  have "map (order_of ?st') ?sorted = map int [0..<0 + length ?sorted]"
    unfolding normalizeSiblings_def Let_def by (rule renumber_enumerate [OF d v])
  then have s: "mset (map (order_of ?st') ?sorted) = mset (map int [0..<length ?refs])" by simp
  have "mset (sibling_orders ?st' P) = mset (map (order_of ?st') ?refs)"
    by (simp add: sibling_orders_refs [symmetric] normalizeSiblings_siblings)
  also have "\<dots> = image_mset (order_of ?st') (mset ?sorted)" by simp
  also have "\<dots> = mset (map int [0..<length ?refs])" using s by simp
  finally show ?thesis unfolding dense_def by (rule dense_orders_mset)
qed

section \<open>Order of a created item\<close>

text \<open>
  C2 (as amended).  A bookmark is created at the root and a folder under the
  given parent with the order \<open>append\<close> prescribes over the combined folders and
  bookmarks of that parent, and is pushed at the end of its array.  A todo is
  pushed at the end of the array of all todos with the length of that array as
  its order, whatever its parent.
\<close>

theorem create_order_bookmark_store:
  "b_order (snd (addBookmark st uri line txt newId now)) = append_order (sibling_orders st None)
   \<and> b_parentId (snd (addBookmark st uri line txt newId now)) = None
   \<and> bookmarks (fst (addBookmark st uri line txt newId now))
       = bookmarks st @ [snd (addBookmark st uri line txt newId now)]
   \<and> f_order (snd (addFolder st nm P newId now)) = append_order (sibling_orders st P)
   \<and> f_parentId (snd (addFolder st nm P newId now)) = P
   \<and> folders (fst (addFolder st nm P newId now))
       = folders st @ [snd (addFolder st nm P newId now)]
   \<and> t_order (snd (addTodo todos input Q newId now)) = int (length todos)
   \<and> t_parentId (snd (addTodo todos input Q newId now)) = Q
   \<and> fst (addTodo todos input Q newId now) = todos @ [snd (addTodo todos input Q newId now)]"
  by (simp add: addBookmark_def addFolder_def addTodo_def Let_def maxOrder_append_order)

theorem create_order_bookmark_store_witness:
  "b_order (snd (addBookmark chain_store ''file:///test.js'' 7 ''t'' ''z'' 5)) = 3
   \<and> f_order (snd (addFolder chain_store ''new'' (Some ''b'') ''z'' 5)) = 2
   \<and> t_order (snd (addTodo todo_list ''sub'' (Some ''u'') ''z'' 5)) = 5"
  using create_order_bookmark_store [of chain_store "''file:///test.js''" 7 "''t''" "''z''" 5 "''new''" "Some ''b''"
      todo_list "''sub''" "Some ''u''"]
  by (simp add: chain_store_def mkBookmark_def mkFolder_def sibling_orders_def append_order_def
      todo_list_def)

text \<open>
  C2, counterexample.  \<^verbatim>\<open>addTodo\<close> gives a new todo the length of the whole
  array as its order: the first child of the only todo \<open>a\<close> gets order 1, where
  \<open>append\<close> over the (empty) children of \<open>a\<close> gives 0.
\<close>

theorem create_order_todo_counterexample:
  "t_order (snd (addTodo [mkTodo ''a'' False 0 None] ''sub'' (Some ''a'') ''b'' 1))
     \<noteq> append_order (todo_sibling_orders [mkTodo ''a'' False 0 None] (Some ''a''))"
  by (simp add: addTodo_def mkTodo_def todo_sibling_orders_def append_order_def Let_def)

section \<open>Document changes at a bookmarked line\<close>

text \<open>
  In \<^verbatim>\<open>handleTextDocumentChange\<close> the test
  \<^verbatim>\<open>bookmark.line >= startLine && bookmark.line <= endLine\<close> comes before the two
  tests \<^verbatim>\<open>bookmark.line === startLine && ...\<close>.  A range has its start before its
  end, so a bookmark on \<open>startLine\<close> always takes the earlier branch: it is
  removed when lines were removed and left alone otherwise.
\<close>

lemma processBookmark_at_startLine:
  assumes "c_startLine change \<le> c_endLine change"
      and "b_line (objs s ! a) = c_startLine change"
  shows "processBookmark uri now change a s
           = (if linesDelta_of change < 0 then remove_live a s else s)"
  using assms by (simp add: processBookmark_def Let_def)

text \<open>
  C3, evaluated at the scenario of the specification: bookmarks on lines 1, 3
  and 5, and two line breaks inserted at column 0 of line 3.  The bookmark of
  line 5 moves to line 7; the bookmark of line 3 stays on line 3.
\<close>

theorem insert_at_bookmarked_line_not_shifted:
  "map b_line (bookmarks (snd (handleTextDocumentChange
      \<lparr> bookmarks = [mkBookmark ''b1'' 1 0 None, mkBookmark ''b3'' 3 1 None, mkBookmark ''b5'' 5 2 None],
        folders = [] \<rparr>
      ''file:///test.js''
      [\<lparr> c_startLine = 3, c_startCharacter = 0, c_endLine = 3, c_endCharacter = 0,
         c_text = [CHR 0x0A, CHR 0x0A] \<rparr>] 9)))
   = [1, 3, 7]"
  by code_simp

text \<open>
  C4, evaluated: one bookmark on line 3, nothing on line 2, and a deletion that
  starts at column 0 of line 3 and removes one line break.  The bookmark is
  removed although line 2 is free.
\<close>

theorem merge_up_deletes_bookmark:
  "getBookmarkForLine \<lparr> bookmarks = [mkBookmark ''b3'' 3 0 None], folders = [] \<rparr> ''file:///test.js'' 2 = None
   \<and> linesDelta_of \<lparr> c_startLine = 3, c_startCharacter = 0, c_endLine = 4, c_endCharacter = 0, c_text = [] \<rparr> = - 1
   \<and> handleTextDocumentChange
      \<lparr> bookmarks = [mkBookmark ''b3'' 3 0 None], folders = [] \<rparr>
      ''file:///test.js''
      [\<lparr> c_startLine = 3, c_startCharacter = 0, c_endLine = 4, c_endCharacter = 0, c_text = [] \<rparr>] 9
   = (True, \<lparr> bookmarks = [], folders = [] \<rparr>)"
  by code_simp

section \<open>Errors of reorderItem\<close>

text \<open>
  The errors thrown before the arrays are touched (dragged item or target not
  found, cycle, depth) leave the store as it was; only the last throw, after the
  dragged item has been taken out, can leave another store behind.
\<close>

lemma reorderItem_checked_errors_keep_store:
  assumes "reorderItem n st draggedId targetId dropPosition now = Some (Some msg, st')"
      and "msg \<noteq> ''Target not found in items list''"
  shows "st' = st"
  using assms
  by (auto simp: reorderItem_def Let_def split: option.splits)

text \<open>
  C9, evaluated: an item dragged onto itself.  The dragged bookmark is taken out
  of the array before the target is looked up among the remaining items of its
  parent, so the call throws \<^verbatim>\<open>Target not found in items list\<close> and leaves the
  store without the bookmark.
\<close>

theorem reorderItem_onto_itself_loses_item:
  "reorderItem 1 \<lparr> bookmarks = [mkBookmark ''a'' 0 0 None, mkBookmark ''b'' 1 1 None], folders = [] \<rparr>
      ''a'' ''a'' Before 9
   = Some (Some ''Target not found in items list'',
           \<lparr> bookmarks = [mkBookmark ''b'' 1 1 None], folders = [] \<rparr>)"
  by code_simp

section \<open>Walking up the parent links\<close>

lemma distinct_id_eq:
  "distinct (map g xs) \<Longrightarrow> a \<in> set xs \<Longrightarrow> b \<in> set xs \<Longrightarrow> g a = g b \<Longrightarrow> a = b"
  by (meson distinct_map inj_onD)

lemma ranked_child:
  "ranked r m fs \<Longrightarrow> f \<in> set fs \<Longrightarrow> f_parentId f = Some p \<Longrightarrow> r (f_id f) < r p"
  by (auto simp: ranked_def split: option.splits)

lemma wf_id_nonempty: "wf_folder_ids fs \<Longrightarrow> f \<in> set fs \<Longrightarrow> f_id f \<noteq> []"
  unfolding wf_folder_ids_def by (metis imageI set_map)

lemma isDescendantOf_loop_mono:
  "isDescendantOf_loop n fs c a = Some b \<Longrightarrow> n \<le> m \<Longrightarrow> isDescendantOf_loop m fs c a = Some b"
proof (induction n arbitrary: c m)
  case 0
  then show ?case by simp
next
  case (Suc n)
  then obtain m' where m: "m = Suc m'" "n \<le> m'" by (cases m) auto
  from Suc.prems(1) show ?case
    unfolding m by (auto split: if_splits intro: Suc.IH [OF _ m(2)])
qed

text \<open>The loop of \<^verbatim>\<open>isDescendantOf\<close> finds every id of the subtree of the ancestor ...\<close>

lemma subtree_isDescendantOf:
  assumes wf: "wf_folder_ids fs" and F: "F \<noteq> []" and x: "x \<in> subtree fs F"
  shows "\<exists>n. isDescendantOf_loop n fs (Some x) F = Some True"
  using x
proof (induction rule: subtree.induct)
  case self
  have "isDescendantOf_loop (Suc 0) fs (Some F) F = Some True" using F by simp
  then show ?case by blast
next
  case (child f p)
  then obtain n where n: "isDescendantOf_loop n fs (Some p) F = Some True" by blast
  have ne: "f_id f \<noteq> []" using wf child.hyps(1) by (rule wf_id_nonempty)
  have fnd: "find (\<lambda>g. Some (f_id g) = Some (f_id f)) fs = Some f"
    using find_distinct_id [of f_id fs f] wf child.hyps(1) by (simp add: wf_folder_ids_def)
  have "isDescendantOf_loop (Suc n) fs (Some (f_id f)) F = Some True"
    using ne fnd n child.hyps(2) by simp
  then show ?case by blast
qed

text \<open>... and nothing else.\<close>

lemma isDescendantOf_loop_subtree:
  "isDescendantOf_loop n fs c F = Some True \<Longrightarrow> \<exists>x. c = Some x \<and> x \<in> subtree fs F"
proof (induction n arbitrary: c)
  case 0
  then show ?case by simp
next
  case (Suc n)
  show ?case
  proof (cases c)
    case None
    with Suc.prems show ?thesis by simp
  next
    case (Some x)
    show ?thesis
    proof (cases "x = F")
      case True
      with Some show ?thesis by (simp add: subtree.self)
    next
      case False
      with Suc.prems Some have tr: "x \<noteq> []" by (auto split: if_splits)
      show ?thesis
      proof (cases "find (\<lambda>f. Some (f_id f) = Some x) fs")
        case None
        with Suc.prems Some False tr have "isDescendantOf_loop n fs None F = Some True" by simp
        from Suc.IH [OF this] show ?thesis by simp
      next
        case (Some g)
        then have g: "g \<in> set fs" "f_id g = x"
          by (auto simp: find_Some_iff in_set_conv_nth)
        from Suc.prems \<open>c = Some x\<close> False tr Some
        have "isDescendantOf_loop n fs (f_parentId g) F = Some True" by simp
        from Suc.IH [OF this] obtain p where p: "f_parentId g = Some p" "p \<in> subtree fs F" by blast
        from subtree.child [OF g(1) p] g(2) \<open>c = Some x\<close> show ?thesis by simp
      qed
    qed
  qed
qed

lemma validateFolderMove_cycle:
  assumes wf: "wf_folder_ids (folders st)" and F: "F \<noteq> []" and T: "T \<in> subtree (folders st) F"
  shows "\<exists>n0. \<forall>n \<ge> n0. validateFolderMove n st F (Some T)
           = Some (Some ''Cannot move folder into itself or its subfolders'')"
proof -
  from subtree_isDescendantOf [OF wf F T] obtain n0
    where n0: "isDescendantOf_loop n0 (folders st) (Some T) F = Some True" by blast
  have Tne: "T \<noteq> []"
    using T F wf by (cases rule: subtree.cases) (auto dest: wf_id_nonempty)
  have "\<forall>n \<ge> n0. validateFolderMove n st F (Some T)
           = Some (Some ''Cannot move folder into itself or its subfolders'')"
  proof (intro allI impI)
    fix n assume "n0 \<le> n"
    from isDescendantOf_loop_mono [OF n0 this]
    show "validateFolderMove n st F (Some T) = Some (Some ''Cannot move folder into itself or its subfolders'')"
      using Tne by (simp add: validateFolderMove_def isDescendantOf_def)
  qed
  then show ?thesis by blast
qed

subsection \<open>Fuel that suffices\<close>

lemma ranked_parent:
  "ranked r m fs \<Longrightarrow> f \<in> set fs \<Longrightarrow> f_parentId f = Some p \<Longrightarrow> r (f_id f) < r p \<and> r p < m"
  by (auto simp: ranked_def split: option.splits)

lemma find_id_Some:
  "find (\<lambda>f. Some (g f) = Some x) fs = Some y \<Longrightarrow> y \<in> set fs \<and> g y = x"
  by (auto simp: find_Some_iff in_set_conv_nth)

text \<open>Fuel for the walks up: the rank rises with every hop and stays below \<open>m\<close>.\<close>

lemma isDescendantOf_loop_returns:
  assumes "ranked r m fs"
  shows "(\<forall>f \<in> set fs. Some (f_id f) = c \<longrightarrow> m - r (f_id f) + 2 \<le> n) \<Longrightarrow> 2 \<le> n
         \<Longrightarrow> \<exists>b. isDescendantOf_loop n fs c F = Some b"
proof (induction n arbitrary: c)
  case 0
  then show ?case by simp
next
  case (Suc n)
  show ?case
  proof (cases "truthy c \<and> c \<noteq> Some F")
    case False
    then show ?thesis by auto
  next
    case True
    then obtain x where x: "c = Some x" by (cases c) auto
    show ?thesis
    proof (cases "find (\<lambda>f. Some (f_id f) = c) fs")
      case None
      have "isDescendantOf_loop n fs None F = Some False" using Suc.prems(2) by (cases n) auto
      with True None show ?thesis by auto
    next
      case (Some g)
      with x have g: "g \<in> set fs" "f_id g = x" using find_id_Some [of f_id x fs g] by auto
      show ?thesis
      proof (cases "f_parentId g")
        case None
        have "isDescendantOf_loop n fs None F = Some False" using Suc.prems(2) by (cases n) auto
        with True Some None show ?thesis by auto
      next
        case (Some p)
        from ranked_parent [OF assms g(1) Some] have rp: "r x < r p" "r p < m" using g(2) by auto
        from Suc.prems(1) g x have bound: "m - r x + 2 \<le> Suc n" by auto
        have "\<exists>b. isDescendantOf_loop n fs (Some p) F = Some b"
        proof (rule Suc.IH)
          show "\<forall>f\<in>set fs. Some (f_id f) = Some p \<longrightarrow> m - r (f_id f) + 2 \<le> n"
            using rp bound by auto
          show "2 \<le> n" using rp bound by auto
        qed
        with True \<open>find (\<lambda>f. Some (f_id f) = c) fs = Some g\<close> Some show ?thesis by simp
      qed
    qed
  qed
qed

lemma getFolderDepth_loop_returns:
  assumes "ranked r m fs"
  shows "(\<forall>f \<in> set fs. Some (f_id f) = c \<longrightarrow> m - r (f_id f) + 2 \<le> n) \<Longrightarrow> 2 \<le> n
         \<Longrightarrow> \<exists>d. getFolderDepth_loop n fs c k = Some d"
proof (induction n arbitrary: c k)
  case 0
  then show ?case by simp
next
  case (Suc n)
  have stop: "\<And>k. isDescendantOf_loop n fs None F = Some False \<and> getFolderDepth_loop n fs None k = Some k"
    using Suc.prems(2) by (cases n) auto
  show ?case
  proof (cases "truthy c")
    case False
    then show ?thesis by auto
  next
    case True
    then obtain x where x: "c = Some x" by (cases c) auto
    show ?thesis
    proof (cases "find (\<lambda>f. Some (f_id f) = c) fs")
      case None
      with True stop show ?thesis by simp
    next
      case (Some g)
      with x have g: "g \<in> set fs" "f_id g = x" using find_id_Some [of f_id x fs g] by auto
      show ?thesis
      proof (cases "truthy (f_parentId g)")
        case False
        with True Some stop show ?thesis by simp
      next
        case tp: True
        then obtain p where p: "f_parentId g = Some p" by (cases "f_parentId g") auto
        from ranked_parent [OF assms g(1) p] have rp: "r x < r p" "r p < m" using g(2) by auto
        from Suc.prems(1) g x have bound: "m - r x + 2 \<le> Suc n" by auto
        have "\<exists>d. getFolderDepth_loop n fs (Some p) (k + 1) = Some d"
        proof (rule Suc.IH)
          show "\<forall>f\<in>set fs. Some (f_id f) = Some p \<longrightarrow> m - r (f_id f) + 2 \<le> n"
            using rp bound by auto
          show "2 \<le> n" using rp bound by auto
        qed
        with True Some tp p show ?thesis by simp
      qed
    qed
  qed
qed

lemma forEachM_returns:
  "(\<And>x s. x \<in> set xs \<Longrightarrow> \<exists>s'. body x s = Some s') \<Longrightarrow> \<exists>s'. forEachM body xs s = Some s'"
proof (induction xs arbitrary: s)
  case Nil
  then show ?case by simp
next
  case (Cons x xs)
  from Cons.prems [of x s] obtain s1 where s1: "body x s = Some s1" by auto
  from Cons.IH [of s1] Cons.prems obtain s2 where "forEachM body xs s1 = Some s2" by auto
  with s1 show ?case by simp
qed

text \<open>Fuel for the recursion over subfolders: the rank falls with every level.\<close>

lemma getMaxFolderDepth_returns:
  assumes "ranked r m (folders st)"
  shows "r F < n \<Longrightarrow> \<exists>h. getMaxFolderDepth n st F = Some h"
proof (induction n arbitrary: F)
  case 0
  then show ?case by simp
next
  case (Suc n)
  have "\<exists>h. forEachM (\<lambda>subfolder maxDepth.
                  case getMaxFolderDepth n st (f_id subfolder) of
                    None \<Rightarrow> None
                  | Some subfolderDepth \<Rightarrow> Some (max maxDepth (subfolderDepth + 1)))
        (filter (\<lambda>f. f_parentId f = Some F) (folders st)) 1 = Some h"
  proof (rule forEachM_returns)
    fix x s assume "x \<in> set (filter (\<lambda>f. f_parentId f = Some F) (folders st))"
    then have x: "x \<in> set (folders st)" "f_parentId x = Some F" by auto
    from ranked_parent [OF assms x] Suc.prems have "r (f_id x) < n" by simp
    from Suc.IH [OF this] obtain h where "getMaxFolderDepth n st (f_id x) = Some h" by blast
    then show "\<exists>s'. (case getMaxFolderDepth n st (f_id x) of None \<Rightarrow> None
            | Some subfolderDepth \<Rightarrow> Some (max s (subfolderDepth + 1))) = Some s'" by simp
  qed
  then show ?case by (simp add: Let_def)
qed

lemma isDescendantOf_loop_total:
  assumes "ranked r m fs" "m + 2 \<le> n"
  shows "\<exists>b. isDescendantOf_loop n fs c F = Some b"
proof (rule isDescendantOf_loop_returns [OF assms(1)])
  show "\<forall>f \<in> set fs. Some (f_id f) = c \<longrightarrow> m - r (f_id f) + 2 \<le> n" using assms(2) by auto
  show "2 \<le> n" using assms(2) by simp
qed

lemma getFolderDepth_loop_total:
  assumes "ranked r m fs" "m + 2 \<le> n"
  shows "\<exists>d. getFolderDepth_loop n fs c k = Some d"
proof (rule getFolderDepth_loop_returns [OF assms(1)])
  show "\<forall>f \<in> set fs. Some (f_id f) = c \<longrightarrow> m - r (f_id f) + 2 \<le> n" using assms(2) by auto
  show "2 \<le> n" using assms(2) by simp
qed

lemma ranked_fuel:
  assumes "ranked r m fs" "m + 2 \<le> n"
  shows "(\<forall>f \<in> set fs. Some (f_id f) = c \<longrightarrow> m - r (f_id f) + 2 \<le> n) \<and> 2 \<le> n"
  using assms by auto

section \<open>Moving a folder\<close>

text \<open>
  C5.  In a store whose folder ids are distinct and not empty, let \<open>F\<close> be the id
  of a folder (and of no bookmark, so that \<^verbatim>\<open>moveToFolder\<close> takes it for the
  folder), and let \<open>T\<close> be \<open>F\<close> or the id of a folder in the subtree of \<open>F\<close>.  Then
  \<^verbatim>\<open>moveToFolder(F, T)\<close>, given enough fuel for the walk from \<open>T\<close> up to \<open>F\<close>,
  throws \<^verbatim>\<open>Cannot move folder into itself or its subfolders\<close> and leaves the
  store as it was.
\<close>

theorem moveToFolder_rejects_cycle:
  assumes "wf_folder_ids (folders st)"
      and "F \<notin> b_id ` set (bookmarks st)"
      and "F \<in> f_id ` set (folders st)"
      and "T \<in> subtree (folders st) F"
  shows "\<exists>n0. \<forall>n \<ge> n0. moveToFolder n st F (Some T) now
           = Some (Some ''Cannot move folder into itself or its subfolders'', st)"
proof -
  have F: "F \<noteq> []" using assms(1,3) by (auto dest: wf_id_nonempty)
  have nb: "findIndex (\<lambda>b. b_id b = F) (bookmarks st) = None"
    using assms(2) by (auto simp: findIndex_None_iff)
  from assms(3) obtain i where i: "findIndex (\<lambda>f. f_id f = F) (folders st) = Some i"
    using findIndex_None_iff [of "\<lambda>f. f_id f = F" "folders st"]
    by (cases "findIndex (\<lambda>f. f_id f = F) (folders st)") auto
  from validateFolderMove_cycle [OF assms(1) F assms(4)] obtain n0 where
    n0: "\<forall>n \<ge> n0. validateFolderMove n st F (Some T)
           = Some (Some ''Cannot move folder into itself or its subfolders'')" by blast
  have "\<forall>n \<ge> n0. moveToFolder n st F (Some T) now
           = Some (Some ''Cannot move folder into itself or its subfolders'', st)"
    using n0 nb i by (simp add: moveToFolder_def)
  then show ?thesis by blast
qed

lemma chain_store_wf: "wf_folder_ids (folders chain_store)"
  by (simp add: wf_folder_ids_def chain_store_def mkFolder_def)

lemma chain_store_subtree_a:
  "''a'' \<in> subtree (folders chain_store) ''a''"
  "''b'' \<in> subtree (folders chain_store) ''a''"
  "''c'' \<in> subtree (folders chain_store) ''a''"
proof -
  show a: "''a'' \<in> subtree (folders chain_store) ''a''" by (rule subtree.self)
  have "f_id (mkFolder ''b'' 0 (Some ''a'')) \<in> subtree (folders chain_store) ''a''"
    by (rule subtree.child [OF _ _ a]) (simp_all add: chain_store_def mkFolder_def)
  then show b: "''b'' \<in> subtree (folders chain_store) ''a''" by (simp add: mkFolder_def)
  have "f_id (mkFolder ''c'' 1 (Some ''b'')) \<in> subtree (folders chain_store) ''a''"
    by (rule subtree.child [OF _ _ b]) (simp_all add: chain_store_def mkFolder_def)
  then show "''c'' \<in> subtree (folders chain_store) ''a''" by (simp add: mkFolder_def)
qed

theorem moveToFolder_rejects_cycle_witness:
  "wf_folder_ids (folders chain_store)
   \<and> ''a'' \<notin> b_id ` set (bookmarks chain_store)
   \<and> ''a'' \<in> f_id ` set (folders chain_store)
   \<and> ''c'' \<in> subtree (folders chain_store) ''a''
   \<and> (\<exists>n0. \<forall>n \<ge> n0. moveToFolder n chain_store ''a'' (Some ''c'') 0
           = Some (Some ''Cannot move folder into itself or its subfolders'', chain_store))"
proof -
  have h2: "''a'' \<notin> b_id ` set (bookmarks chain_store)"
    by (simp add: chain_store_def mkBookmark_def)
  have h3: "''a'' \<in> f_id ` set (folders chain_store)"
    by (simp add: chain_store_def mkFolder_def)
  from moveToFolder_rejects_cycle [OF chain_store_wf h2 h3 chain_store_subtree_a(3), of 0]
  show ?thesis using chain_store_wf h2 h3 chain_store_subtree_a(3) by blast
qed

lemma find_findIndex: "find P xs = map_option (nth xs) (findIndex P xs)"
  by (induction xs) (auto simp: option.map_comp comp_def)

lemma findIndex_map: "findIndex P (map g xs) = findIndex (\<lambda>x. P (g x)) xs"
  by (induction xs) auto

lemma findIndex_erase:
  assumes "erase_orders st = erase_orders st'"
  shows "findIndex (\<lambda>f. f_id f = F) (folders st) = findIndex (\<lambda>f. f_id f = F) (folders st')"
  using findIndex_map [of "\<lambda>x. x = F" f_id "folders st"] findIndex_map [of "\<lambda>x. x = F" f_id "folders st'"]
    erase_orders_fields(2) [OF assms] by simp

lemma isDescendantOf_exact:
  assumes wf: "wf_folder_ids (folders st)" and rk: "ranked r m (folders st)" and fuel: "m + 2 \<le> n"
      and F: "F \<noteq> []"
  shows "isDescendantOf n st T F = Some (T \<in> subtree (folders st) F)"
proof -
  from isDescendantOf_loop_total [OF rk fuel, of "Some T" F]
  obtain b where b: "isDescendantOf_loop n (folders st) (Some T) F = Some b" by blast
  have "b = (T \<in> subtree (folders st) F)"
  proof (cases b)
    case True
    with isDescendantOf_loop_subtree [of n "folders st" "Some T" F] b show ?thesis by simp
  next
    case False
    have "T \<notin> subtree (folders st) F"
    proof
      assume "T \<in> subtree (folders st) F"
      from subtree_isDescendantOf [OF wf F this] obtain k
        where k: "isDescendantOf_loop k (folders st) (Some T) F = Some True" by blast
      from isDescendantOf_loop_mono [OF k, of "max k n"] isDescendantOf_loop_mono [OF b, of "max k n"]
      show False using False by simp
    qed
    with False show ?thesis by simp
  qed
  with b show ?thesis by (simp add: isDescendantOf_def)
qed

text \<open>What a successful move of the folder at index \<open>i\<close> leaves behind.\<close>

lemma move_folder_result:
  fixes target :: "string option" and now :: int
  assumes i: "findIndex (\<lambda>f. f_id f = F) (folders st) = Some i"
  defines "st1 \<equiv> st\<lparr>folders := (folders st)[i := (folders st ! i)
                  \<lparr>f_parentId := target, f_updatedAt := now,
                   f_order := maxOrder st (getFolderSiblings st target) + 1\<rparr>]\<rparr>"
  defines "st' \<equiv> (if f_parentId (folders st ! i) \<noteq> target
                   then normalizeSiblings st1 (f_parentId (folders st ! i)) else st1)"
  shows "\<exists>f'. find (\<lambda>f. f_id f = F) (folders st') = Some f' \<and> f_parentId f' = target
           \<and> f_order f' = append_order (sibling_orders st target)"
proof -
  from findIndex_Some [OF i] have il: "i < length (folders st)" and idF: "f_id (folders st ! i) = F" by auto
  have e: "erase_orders st' = erase_orders st1" by (simp add: st'_def normalizeSiblings_erase)
  have ids1: "map f_id (folders st1) = map f_id (folders st)"
    using idF by (simp add: st1_def map_update_same)
  have "findIndex (\<lambda>f. f_id f = F) (folders st') = findIndex (\<lambda>f. f_id f = F) (folders st1)"
    by (rule findIndex_erase [OF e])
  also have "\<dots> = Some i"
    using findIndex_map [of "\<lambda>x. x = F" f_id "folders st1"] findIndex_map [of "\<lambda>x. x = F" f_id "folders st"]
      ids1 i by simp
  finally have fi: "find (\<lambda>f. f_id f = F) (folders st') = Some (folders st' ! i)"
    by (simp add: find_findIndex)
  have len: "length (folders st') = length (folders st)"
    using erase_orders_fields(5) [OF e] by (simp add: st1_def)
  have "map f_parentId (folders st') ! i = map f_parentId (folders st1) ! i"
    using erase_orders_fields(1) [OF e] by simp
  then have par: "f_parentId (folders st' ! i) = target"
    using il len by (simp add: st1_def)
  have o1: "order_of st1 (FolderRef i) = maxOrder st (getFolderSiblings st target) + 1"
    using il by (simp add: st1_def order_of_def)
  have "order_of st' (FolderRef i) = order_of st1 (FolderRef i)"
  proof (cases "f_parentId (folders st ! i) \<noteq> target")
    case False
    then show ?thesis by (simp add: st'_def)
  next
    case True
    have "parent_of st1 (FolderRef i) = target" using il by (simp add: parent_of_def st1_def)
    with True have "FolderRef i \<notin> set (getFolderSiblings st1 (f_parentId (folders st ! i)))"
      using getFolderSiblings_valid [of "FolderRef i" st1 "f_parentId (folders st ! i)"] by auto
    from normalizeSiblings_order_other [OF this] True show ?thesis by (simp add: st'_def)
  qed
  with o1 have "f_order (folders st' ! i) = append_order (sibling_orders st target)"
    by (simp add: order_of_def maxOrder_append_order)
  with fi par show ?thesis by simp
qed

subsection \<open>Chains of parent links\<close>

lemma descends_zero: "descends fs x 0 y \<Longrightarrow> y = x"
  by (cases rule: descends.cases) auto

lemma descends_last:
  "descends fs x (Suc k) y \<Longrightarrow>
   \<exists>f p. y = f_id f \<and> f \<in> set fs \<and> f_parentId f = Some p \<and> p \<noteq> [] \<and> descends fs x k p"
  by (cases rule: descends.cases) auto

lemma descends_prepend:
  assumes c: "c \<in> set fs" "f_parentId c = Some x" "x \<noteq> []"
  shows "descends fs (f_id c) k y \<Longrightarrow> descends fs x (Suc k) y"
proof (induction rule: descends.induct)
  case zero
  from descends.step [OF descends.zero c] show ?case .
next
  case (step k p f)
  from descends.step [OF step.IH step.hyps(2,3,4)] show ?case .
qed

lemma descends_first:
  "descends fs x k y \<Longrightarrow> k = Suc j \<Longrightarrow>
   \<exists>c \<in> set fs. f_parentId c = Some x \<and> descends fs (f_id c) j y"
proof (induction arbitrary: j rule: descends.induct)
  case zero
  then show ?case by simp
next
  case (step k p f)
  show ?case
  proof (cases k)
    case 0
    with step.hyps(1) have "p = x" by (simp add: descends_zero)
    with step.hyps(2,3) step.prems 0 descends.zero [of fs "f_id f"] show ?thesis by auto
  next
    case (Suc i)
    from step.IH [OF Suc] obtain c where c: "c \<in> set fs" "f_parentId c = Some x"
      "descends fs (f_id c) i p" by blast
    from descends.step [OF c(3) step.hyps(2,3,4)] c(1,2) step.prems Suc show ?thesis by auto
  qed
qed

subsection \<open>getMaxFolderDepth is the height\<close>

lemma max_children:
  fixes g :: "BookmarkFolder \<Rightarrow> nat"
  assumes "\<And>c. c \<in> set cs \<Longrightarrow> sub (f_id c) = Some (g c)"
  shows "forEachM (\<lambda>subfolder maxDepth. case sub (f_id subfolder) of None \<Rightarrow> None
                     | Some subfolderDepth \<Rightarrow> Some (max maxDepth (subfolderDepth + 1))) cs k
         = Some (Max (insert k ((\<lambda>c. g c + 1) ` set cs)))"
  using assms
proof (induction cs arbitrary: k)
  case Nil
  show ?case by simp
next
  case (Cons c cs)
  have "forEachM (\<lambda>subfolder maxDepth. case sub (f_id subfolder) of None \<Rightarrow> None
                     | Some subfolderDepth \<Rightarrow> Some (max maxDepth (subfolderDepth + 1))) cs (max k (g c + 1))
        = Some (Max (insert (max k (g c + 1)) ((\<lambda>c. g c + 1) ` set cs)))"
    by (rule Cons.IH) (simp add: Cons.prems)
  moreover have "Max (insert (max k (g c + 1)) ((\<lambda>c. g c + 1) ` set cs))
        = Max (insert k ((\<lambda>c. g c + 1) ` set (c # cs)))"
  proof -
    have "Max (insert (max k (g c + 1)) ((\<lambda>c. g c + 1) ` set cs))
          = max (max k (g c + 1)) (Max (insert (max k (g c + 1)) ((\<lambda>c. g c + 1) ` set cs)))"
      by (simp add: max_def)
    have fin: "finite ((\<lambda>c. g c + 1) ` set cs)" by simp
    show ?thesis
    proof (cases "set cs = {}")
      case True
      then show ?thesis by (simp add: max.commute)
    next
      case False
      then have ne: "(\<lambda>c. g c + 1) ` set cs \<noteq> {}" by simp
      show ?thesis using fin ne by (simp add: max.assoc max.left_commute insert_commute)
    qed
  qed
  ultimately show ?case using Cons.prems [of c] by simp
qed

lemma getMaxFolderDepth_height:
  assumes wf: "wf_folder_ids (folders st)" and rk: "ranked r m (folders st)"
  shows "r x < n \<Longrightarrow> x \<noteq> [] \<Longrightarrow> \<exists>h. getMaxFolderDepth n st x = Some h \<and> height_is (folders st) x h"
proof (induction n arbitrary: x)
  case 0
  then show ?case by simp
next
  case (Suc n)
  let ?fs = "folders st"
  let ?cs = "filter (\<lambda>f. f_parentId f = Some x) ?fs"
  have "\<forall>c \<in> set ?cs. \<exists>h. getMaxFolderDepth n st (f_id c) = Some h \<and> height_is ?fs (f_id c) h"
  proof
    fix c assume "c \<in> set ?cs"
    then have c: "c \<in> set ?fs" "f_parentId c = Some x" by auto
    from ranked_child [OF rk c] Suc.prems have "r (f_id c) < n" by simp
    moreover have "f_id c \<noteq> []" using wf c(1) by (rule wf_id_nonempty)
    ultimately show "\<exists>h. getMaxFolderDepth n st (f_id c) = Some h \<and> height_is ?fs (f_id c) h"
      by (rule Suc.IH)
  qed
  then obtain g where g: "\<forall>c \<in> set ?cs. getMaxFolderDepth n st (f_id c) = Some (g c) \<and> height_is ?fs (f_id c) (g c)"
    by metis
  let ?h = "Max (insert 1 ((\<lambda>c. g c + 1) ` set ?cs))"
  have run: "getMaxFolderDepth (Suc n) st x = Some ?h"
    using max_children [of ?cs "getMaxFolderDepth n st" g 1] g by (simp add: Let_def)
  have fin: "finite (insert 1 ((\<lambda>c. g c + 1) ` set ?cs))" by simp
  have ge1: "1 \<le> ?h" using fin by (simp add: Max_ge_iff)
  then obtain k where k: "?h = Suc k" by (cases ?h) auto
  have mem: "?h \<in> insert 1 ((\<lambda>c. g c + 1) ` set ?cs)" using fin by (intro Max_in) auto
  have ex: "\<exists>y. descends ?fs x k y"
  proof (cases "?h = 1")
    case True
    with k have "k = 0" by simp
    then show ?thesis using descends.zero [of ?fs x] by auto
  next
    case False
    with mem obtain c where c: "c \<in> set ?cs" "?h = g c + 1" by auto
    with g have "height_is ?fs (f_id c) (g c)" by simp
    then obtain i y where i: "g c = Suc i" "descends ?fs (f_id c) i y" by (auto simp: height_is_def)
    from c(1) have c': "c \<in> set ?fs" "f_parentId c = Some x" by auto
    from descends_prepend [OF c' Suc.prems(2) i(2)] c(2) i(1) k show ?thesis by auto
  qed
  have ub: "\<forall>j y. descends ?fs x j y \<longrightarrow> j \<le> k"
  proof (intro allI impI)
    fix j y assume d: "descends ?fs x j y"
    show "j \<le> k"
    proof (cases j)
      case 0
      then show ?thesis by simp
    next
      case (Suc i)
      from descends_first [OF d Suc] obtain c where c: "c \<in> set ?fs" "f_parentId c = Some x"
        "descends ?fs (f_id c) i y" by blast
      then have cs: "c \<in> set ?cs" by simp
      with g have "height_is ?fs (f_id c) (g c)" by simp
      with c(3) have "Suc i \<le> g c" by (auto simp: height_is_def)
      moreover have "g c + 1 \<le> ?h" using fin cs by (intro Max_ge) auto
      ultimately show ?thesis using Suc k by simp
    qed
  qed
  from run k ex ub show ?case by (auto simp: height_is_def)
qed

subsection \<open>getFolderDepth is the depth\<close>

lemma getFolderDepth_loop_depth:
  assumes dist: "distinct (map f_id fs)"
  shows "getFolderDepth_loop n fs (Some x) acc = Some d \<Longrightarrow> x \<noteq> [] \<Longrightarrow>
         \<exists>k. d = acc + k \<and> (\<exists>a. descends fs a k x) \<and> (\<forall>j a. descends fs a j x \<longrightarrow> j \<le> k)"
proof (induction n arbitrary: x acc)
  case 0
  then show ?case by simp
next
  case (Suc n)
  have stop: "getFolderDepth_loop n fs None acc = Some d \<Longrightarrow> d = acc"
    by (cases n) auto
  show ?case
  proof (cases "find (\<lambda>f. Some (f_id f) = Some x) fs")
    case None
    with Suc.prems stop have d: "d = acc" by simp
    have "j = 0" if "descends fs a j x" for j a
    proof (cases j)
      case 0
      then show ?thesis .
    next
      case (Suc i)
      from descends_last [OF that [unfolded Suc]] obtain f where "x = f_id f" "f \<in> set fs" by blast
      with None show ?thesis by (auto simp: find_None_iff)
    qed
    with d descends.zero [of fs x] show ?thesis by auto
  next
    case (Some f)
    from find_id_Some [OF Some] have f: "f \<in> set fs" "f_id f = x" by auto
    have only: "f' = f" if "f' \<in> set fs" "f_id f' = x" for f'
      using distinct_id_eq [OF dist that(1) f(1)] that(2) f(2) by simp
    show ?thesis
    proof (cases "truthy (f_parentId f)")
      case False
      with Suc.prems Some stop have d: "d = acc" by simp
      have "j = 0" if "descends fs a j x" for j a
      proof (cases j)
        case 0
        then show ?thesis .
      next
        case (Suc i)
        from descends_last [OF that [unfolded Suc]] obtain f' p where
          "x = f_id f'" "f' \<in> set fs" "f_parentId f' = Some p" "p \<noteq> []" by blast
        with only [of f'] False show ?thesis by auto
      qed
      with d descends.zero [of fs x] show ?thesis by auto
    next
      case True
      then obtain p where p: "f_parentId f = Some p" "p \<noteq> []" by (cases "f_parentId f") auto
      with Suc.prems Some True have "getFolderDepth_loop n fs (Some p) (acc + 1) = Some d" by simp
      from Suc.IH [OF this p(2)] obtain k where k: "d = acc + 1 + k" "\<exists>a. descends fs a k p"
        "\<forall>j a. descends fs a j p \<longrightarrow> j \<le> k" by blast
      from k(2) obtain a where "descends fs a k p" by blast
      from descends.step [OF this f(1) p] f(2) have ex: "\<exists>a. descends fs a (Suc k) x" by auto
      have "j \<le> Suc k" if "descends fs a j x" for j a
      proof (cases j)
        case 0
        then show ?thesis by simp
      next
        case (Suc i)
        from descends_last [OF that [unfolded Suc]] obtain f' p' where
          f': "x = f_id f'" "f' \<in> set fs" "f_parentId f' = Some p'" "descends fs a i p'" by blast
        with only [of f'] p have "p' = p" by auto
        with f'(4) k(3) Suc show ?thesis by auto
      qed
      with k(1) ex show ?thesis by auto
    qed
  qed
qed

lemma getFolderDepth_depth:
  assumes "distinct (map f_id (folders st))" and "getFolderDepth n st T = Some d" and "T \<noteq> []"
  shows "depth_is (folders st) T d"
  using getFolderDepth_loop_depth [OF assms(1) assms(2) [unfolded getFolderDepth_def] assms(3)]
  by (auto simp: depth_is_def)

text \<open>
  C6 (as amended).  In a store with distinct, non-empty folder ids whose parent
  links have no cycle, let \<open>F\<close> be the id of a folder and of no bookmark, and let
  the fuel suffice.  For a non-empty target id \<open>T\<close>, \<^verbatim>\<open>getFolderDepth(T)\<close> returns
  the depth \<open>d\<close> of \<open>T\<close> (1 for a folder at the root) and \<^verbatim>\<open>getMaxFolderDepth(F)\<close>
  the height \<open>h\<close> of \<open>F\<close> (the longest chain of folders below \<open>F\<close>, \<open>F\<close> included);
  if \<open>T\<close> is in the subtree of \<open>F\<close> the move throws the cycle error; otherwise it
  throws \<^verbatim>\<open>Moving this folder would exceed maximum depth (3 levels)\<close> exactly when
  \<open>d + h > 3\<close>; either error leaves the store unchanged.  Otherwise, and always
  when the destination is the root, the move succeeds: the folder has the new
  parent and the order \<open>append\<close> gives over the new parent's siblings.
\<close>

theorem moveToFolder_depth_check:
  assumes wf: "wf_folder_ids (folders st)" and rk: "ranked r m (folders st)" and fuel: "m + 2 \<le> n"
      and nb: "F \<notin> b_id ` set (bookmarks st)" and isf: "F \<in> f_id ` set (folders st)"
      and T: "T \<noteq> []"
  shows "\<exists>d h. getFolderDepth n st T = Some d \<and> depth_is (folders st) T d \<and>
     getMaxFolderDepth n st F = Some h \<and> height_is (folders st) F h \<and>
     (T \<in> subtree (folders st) F \<longrightarrow>
        moveToFolder n st F (Some T) now
          = Some (Some ''Cannot move folder into itself or its subfolders'', st)) \<and>
     (T \<notin> subtree (folders st) F \<and> d + h > 3 \<longrightarrow>
        moveToFolder n st F (Some T) now
          = Some (Some ''Moving this folder would exceed maximum depth (3 levels)'', st)) \<and>
     (T \<notin> subtree (folders st) F \<and> d + h \<le> 3 \<longrightarrow>
        (\<exists>st' f'. moveToFolder n st F (Some T) now = Some (None, st')
           \<and> find (\<lambda>f. f_id f = F) (folders st') = Some f'
           \<and> f_parentId f' = Some T
           \<and> f_order f' = append_order (sibling_orders st (Some T)))) \<and>
     (\<exists>st' f'. moveToFolder n st F None now = Some (None, st')
           \<and> find (\<lambda>f. f_id f = F) (folders st') = Some f'
           \<and> f_parentId f' = None
           \<and> f_order f' = append_order (sibling_orders st None))"
proof -
  have F: "F \<noteq> []" using wf isf by (auto dest: wf_id_nonempty)
  have nbi: "findIndex (\<lambda>b. b_id b = F) (bookmarks st) = None"
    using nb by (auto simp: findIndex_None_iff)
  from isf obtain i where i: "findIndex (\<lambda>f. f_id f = F) (folders st) = Some i"
    using findIndex_None_iff [of "\<lambda>f. f_id f = F" "folders st"]
    by (cases "findIndex (\<lambda>f. f_id f = F) (folders st)") auto
  from getFolderDepth_loop_total [OF rk fuel, of "Some T" 1]
  obtain d where d: "getFolderDepth n st T = Some d" unfolding getFolderDepth_def by blast
  from isf rk have "r F < m" by (auto simp: ranked_def)
  with fuel have "r F < n" by simp
  from getMaxFolderDepth_height [OF wf rk this F]
  obtain h where h: "getMaxFolderDepth n st F = Some h" and hh: "height_is (folders st) F h" by blast
  from wf have "distinct (map f_id (folders st))" by (simp add: wf_folder_ids_def)
  from getFolderDepth_depth [OF this d T] have dd: "depth_is (folders st) T d" .
  note desc = isDescendantOf_exact [OF wf rk fuel F, of T]
  have v: "validateFolderMove n st F (Some T) =
      Some (if T \<in> subtree (folders st) F then Some ''Cannot move folder into itself or its subfolders''
            else if d + h > 3 then Some ''Moving this folder would exceed maximum depth (3 levels)''
            else None)"
    using T d h desc by (simp add: validateFolderMove_def)
  have c1: "T \<in> subtree (folders st) F \<longrightarrow>
        moveToFolder n st F (Some T) now
          = Some (Some ''Cannot move folder into itself or its subfolders'', st)"
    using v nbi i by (simp add: moveToFolder_def)
  have c2: "T \<notin> subtree (folders st) F \<and> d + h > 3 \<longrightarrow>
        moveToFolder n st F (Some T) now
          = Some (Some ''Moving this folder would exceed maximum depth (3 levels)'', st)"
    using v nbi i by (simp add: moveToFolder_def)
  have c3: "T \<notin> subtree (folders st) F \<and> d + h \<le> 3 \<longrightarrow>
        (\<exists>st' f'. moveToFolder n st F (Some T) now = Some (None, st')
           \<and> find (\<lambda>f. f_id f = F) (folders st') = Some f'
           \<and> f_parentId f' = Some T
           \<and> f_order f' = append_order (sibling_orders st (Some T)))"
    using v nbi i move_folder_result [OF i, of "Some T" now]
    by (simp add: moveToFolder_def Let_def)
  have c4: "\<exists>st' f'. moveToFolder n st F None now = Some (None, st')
           \<and> find (\<lambda>f. f_id f = F) (folders st') = Some f'
           \<and> f_parentId f' = None
           \<and> f_order f' = append_order (sibling_orders st None)"
    using nbi i move_folder_result [OF i, of None now]
    by (simp add: moveToFolder_def validateFolderMove_def Let_def)
  from d dd h hh c1 c2 c3 c4 show ?thesis by blast
qed

lemma chain_store_ranked: "ranked chain_rank 3 (folders chain_store)"
  by (simp add: ranked_def chain_store_def mkFolder_def chain_rank_def)

theorem moveToFolder_depth_check_witness:
  "wf_folder_ids (folders chain_store) \<and> ranked chain_rank 3 (folders chain_store) \<and> (3::nat) + 2 \<le> 5
   \<and> ''a'' \<notin> b_id ` set (bookmarks chain_store) \<and> ''a'' \<in> f_id ` set (folders chain_store)
   \<and> ''d'' \<noteq> []
   \<and> getFolderDepth 5 chain_store ''d'' = Some 1 \<and> getMaxFolderDepth 5 chain_store ''a'' = Some 3
   \<and> moveToFolder 5 chain_store ''a'' (Some ''d'') 0
       = Some (Some ''Moving this folder would exceed maximum depth (3 levels)'', chain_store)"
proof -
  have h3: "(3::nat) + 2 \<le> 5" by simp
  have h4: "''a'' \<notin> b_id ` set (bookmarks chain_store)"
    by (simp add: chain_store_def mkBookmark_def)
  have h5: "''a'' \<in> f_id ` set (folders chain_store)"
    by (simp add: chain_store_def mkFolder_def)
  have h6: "''d'' \<noteq> []" by simp
  have d: "getFolderDepth 5 chain_store ''d'' = Some 1" by code_simp
  have h: "getMaxFolderDepth 5 chain_store ''a'' = Some 3" by code_simp
  have "isDescendantOf 5 chain_store ''d'' ''a'' = Some False" by code_simp
  with isDescendantOf_exact [OF chain_store_wf chain_store_ranked h3, of "''a''" "''d''"]
  have notin: "''d'' \<notin> subtree (folders chain_store) ''a''" by simp
  from moveToFolder_depth_check [OF chain_store_wf chain_store_ranked h3 h4 h5 h6, of 0] d h notin
  have "moveToFolder 5 chain_store ''a'' (Some ''d'') 0
       = Some (Some ''Moving this folder would exceed maximum depth (3 levels)'', chain_store)"
    by auto
  with chain_store_wf chain_store_ranked h3 h4 h5 h6 d h show ?thesis by blast
qed

text \<open>
  C6, counterexample, on the chain \<open>a > b > c\<close>.  Moving \<open>a\<close> under \<open>c\<close> has
  \<open>targetDepth + subtreeHeight = 3 + 3 > 3\<close>, yet the error thrown is not the
  depth error but the cycle error, which is checked first.  And with the root
  counted as depth 1 the claim has a move of \<open>a\<close> to the root fail (1 + 3 > 3);
  \<^verbatim>\<open>moveToFolder\<close> checks the depth only for a target folder, and that move
  succeeds.
\<close>

theorem moveToFolder_depth_counterexample:
  "getFolderDepth 5 chain_store ''c'' = Some 3 \<and> getMaxFolderDepth 5 chain_store ''a'' = Some 3
   \<and> moveToFolder 5 chain_store ''a'' (Some ''c'') 0
       = Some (Some ''Cannot move folder into itself or its subfolders'', chain_store)
   \<and> (1::nat) + 3 > 3
   \<and> map_option fst (moveToFolder 5 chain_store ''a'' None 0) = Some None"
  by code_simp

section \<open>Clearing the checked todos\<close>

lemma todo_ranked_child:
  "todo_ranked r m todos \<Longrightarrow> t \<in> set todos \<Longrightarrow> t_parentId t = Some p \<Longrightarrow> r (t_id t) < r p"
  by (auto simp: todo_ranked_def split: option.splits)

lemma todo_subtree_trans:
  assumes "y \<in> todo_subtree todos x" and "z \<in> todo_subtree todos y"
  shows "z \<in> todo_subtree todos x"
  using assms(2)
proof (induction rule: todo_subtree.induct)
  case self
  show ?case by (rule assms(1))
next
  case (child t p)
  then show ?case by (auto intro: todo_subtree.child)
qed

text \<open>The subtree of a todo is the todo and the subtrees of its children.\<close>

lemma todo_subtree_unfold:
  "todo_subtree todos x
     = insert x (\<Union>c \<in> set (filter (\<lambda>t. t_parentId t = Some x) todos). todo_subtree todos (t_id c))"
proof (intro set_eqI iffI)
  fix y assume "y \<in> todo_subtree todos x"
  then show "y \<in> insert x (\<Union>c \<in> set (filter (\<lambda>t. t_parentId t = Some x) todos). todo_subtree todos (t_id c))"
  proof (induction rule: todo_subtree.induct)
    case self
    show ?case by simp
  next
    case (child t p)
    show ?case
    proof (cases "p = x")
      case True
      with child.hyps have "t \<in> set (filter (\<lambda>t. t_parentId t = Some x) todos)" by simp
      moreover have "t_id t \<in> todo_subtree todos (t_id t)" by (rule todo_subtree.self)
      ultimately show ?thesis by blast
    next
      case False
      with child.IH obtain c where c: "c \<in> set (filter (\<lambda>t. t_parentId t = Some x) todos)"
        "p \<in> todo_subtree todos (t_id c)" by auto
      from todo_subtree.child [OF child.hyps(1,2) c(2)] c(1) show ?thesis by blast
    qed
  qed
next
  fix y assume "y \<in> insert x (\<Union>c \<in> set (filter (\<lambda>t. t_parentId t = Some x) todos). todo_subtree todos (t_id c))"
  then consider "y = x" | c where "c \<in> set todos" "t_parentId c = Some x" "y \<in> todo_subtree todos (t_id c)"
    by auto
  then show "y \<in> todo_subtree todos x"
  proof cases
    case 1
    then show ?thesis by (simp add: todo_subtree.self)
  next
    case 2
    have "t_id c \<in> todo_subtree todos x"
      by (rule todo_subtree.child [OF 2(1,2)]) (rule todo_subtree.self)
    from todo_subtree_trans [OF this 2(3)] show ?thesis .
  qed
qed

text \<open>\<^verbatim>\<open>markForDeletion\<close> adds the subtree of the todo to the set.\<close>

lemma markForDeletion_children:
  assumes "\<And>c acc. c \<in> set cs \<Longrightarrow> mark (t_id c) acc = Some (acc \<union> todo_subtree todos (t_id c))"
  shows "forEachM (\<lambda>child. mark (t_id child)) cs acc
           = Some (acc \<union> (\<Union>c \<in> set cs. todo_subtree todos (t_id c)))"
  using assms
proof (induction cs arbitrary: acc)
  case Nil
  show ?case by simp
next
  case (Cons c cs)
  have "forEachM (\<lambda>child. mark (t_id child)) cs (acc \<union> todo_subtree todos (t_id c))
        = Some ((acc \<union> todo_subtree todos (t_id c)) \<union> (\<Union>c \<in> set cs. todo_subtree todos (t_id c)))"
    by (rule Cons.IH) (simp add: Cons.prems)
  then show ?case using Cons.prems [of c acc] by (simp add: Un_assoc)
qed

lemma markForDeletion_subtree:
  assumes "todo_ranked r m todos"
  shows "r x < n \<Longrightarrow> markForDeletion n todos x acc = Some (acc \<union> todo_subtree todos x)"
proof (induction n arbitrary: x acc)
  case 0
  then show ?case by simp
next
  case (Suc n)
  let ?children = "filter (\<lambda>t. t_parentId t = Some x) todos"
  have "forEachM (\<lambda>child. markForDeletion n todos (t_id child)) ?children (insert x acc)
        = Some (insert x acc \<union> (\<Union>c \<in> set ?children. todo_subtree todos (t_id c)))"
  proof (rule markForDeletion_children)
    fix c acc' assume "c \<in> set ?children"
    then have c: "c \<in> set todos" "t_parentId c = Some x" by auto
    from todo_ranked_child [OF assms c] Suc.prems have "r (t_id c) < n" by simp
    then show "markForDeletion n todos (t_id c) acc' = Some (acc' \<union> todo_subtree todos (t_id c))"
      by (rule Suc.IH)
  qed
  also have "insert x acc \<union> (\<Union>c \<in> set ?children. todo_subtree todos (t_id c)) = acc \<union> todo_subtree todos x"
    by (subst todo_subtree_unfold [of todos x]) auto
  finally show ?case by (simp add: Let_def)
qed

text \<open>The set that \<^verbatim>\<open>clearCheckedTodos\<close> collects.\<close>

lemma clearChecked_loop:
  assumes "\<And>t acc. t \<in> set ts \<Longrightarrow> t_done t \<Longrightarrow> mark (t_id t) acc = Some (acc \<union> todo_subtree todos (t_id t))"
  shows "forEachM (\<lambda>t toDelete. if t_done t then mark (t_id t) toDelete else Some toDelete) ts acc
           = Some (acc \<union> (\<Union>t \<in> set (filter t_done ts). todo_subtree todos (t_id t)))"
  using assms
proof (induction ts arbitrary: acc)
  case Nil
  show ?case by simp
next
  case (Cons t ts)
  show ?case
  proof (cases "t_done t")
    case True
    have "forEachM (\<lambda>t toDelete. if t_done t then mark (t_id t) toDelete else Some toDelete) ts
             (acc \<union> todo_subtree todos (t_id t))
          = Some ((acc \<union> todo_subtree todos (t_id t)) \<union> (\<Union>t \<in> set (filter t_done ts). todo_subtree todos (t_id t)))"
      by (rule Cons.IH) (simp add: Cons.prems)
    with True Cons.prems [of t acc] show ?thesis by (simp add: Un_assoc)
  next
    case False
    have "forEachM (\<lambda>t toDelete. if t_done t then mark (t_id t) toDelete else Some toDelete) ts acc
          = Some (acc \<union> (\<Union>t \<in> set (filter t_done ts). todo_subtree todos (t_id t)))"
      by (rule Cons.IH) (simp add: Cons.prems)
    with False show ?thesis by simp
  qed
qed

text \<open>With distinct ids, the ids collected are those of the todos that are done
  or have a done ancestor.\<close>

lemma todo_subtree_member:
  "y \<in> todo_subtree todos x \<Longrightarrow> y = x \<or> (\<exists>t \<in> set todos. t_id t = y)"
  by (induction rule: todo_subtree.induct) auto

lemma in_done_subtree_imp:
  assumes dist: "distinct (map t_id todos)" and d: "d \<in> set todos" "t_done d"
  shows "y \<in> todo_subtree todos (t_id d) \<Longrightarrow> t \<in> set todos \<Longrightarrow> t_id t = y
         \<Longrightarrow> t_done t \<or> has_done_ancestor todos t"
proof (induction arbitrary: t rule: todo_subtree.induct)
  case self
  from distinct_id_eq [OF dist self(1) d(1) self(2)] d(2) show ?case by simp
next
  case (child t' p)
  from distinct_id_eq [OF dist child.prems(1) child.hyps(1) child.prems(2)] have tt: "t = t'" .
  from todo_subtree_member [OF child.hyps(3)] d(1)
  obtain q where q: "q \<in> set todos" "t_id q = p" by auto
  from child.IH [OF q] have "t_done q \<or> has_done_ancestor todos q" .
  then have "has_done_ancestor todos t"
    using q child.hyps(2) tt by (auto intro: has_done_ancestor.intros)
  then show ?case by simp
qed

lemma has_done_ancestor_in_subtree:
  "has_done_ancestor todos t \<Longrightarrow> t \<in> set todos \<Longrightarrow>
   \<exists>d \<in> set todos. t_done d \<and> t_id t \<in> todo_subtree todos (t_id d)"
proof (induction rule: has_done_ancestor.induct)
  case (parent_done p t)
  have "t_id t \<in> todo_subtree todos (t_id p)"
    by (rule todo_subtree.child [OF parent_done(4) parent_done(2)]) (rule todo_subtree.self)
  with parent_done show ?case by blast
next
  case (ancestor_done p t)
  then obtain d where d: "d \<in> set todos" "t_done d" "t_id p \<in> todo_subtree todos (t_id d)" by blast
  from todo_subtree.child [OF ancestor_done(5) ancestor_done(2) d(3)] d(1,2) show ?case by blast
qed

lemma collected_iff:
  assumes dist: "distinct (map t_id todos)" and t: "t \<in> set todos"
  shows "t_id t \<in> (\<Union>d \<in> set (filter t_done todos). todo_subtree todos (t_id d))
         \<longleftrightarrow> t_done t \<or> has_done_ancestor todos t"
proof
  assume "t_id t \<in> (\<Union>d \<in> set (filter t_done todos). todo_subtree todos (t_id d))"
  then obtain d where d: "d \<in> set todos" "t_done d" "t_id t \<in> todo_subtree todos (t_id d)" by auto
  from in_done_subtree_imp [OF dist d(1,2) d(3) t refl] show "t_done t \<or> has_done_ancestor todos t" .
next
  assume "t_done t \<or> has_done_ancestor todos t"
  then show "t_id t \<in> (\<Union>d \<in> set (filter t_done todos). todo_subtree todos (t_id d))"
  proof
    assume "t_done t"
    with t todo_subtree.self [of "t_id t" todos] show ?thesis by auto
  next
    assume "has_done_ancestor todos t"
    from has_done_ancestor_in_subtree [OF this t] show ?thesis by auto
  qed
qed

text \<open>
  C10.  For todos with distinct ids and parent links without a cycle, and fuel
  above every rank, \<^verbatim>\<open>clearCheckedTodos\<close> returns, and what it keeps are exactly
  the todos that are neither done nor have a done todo on their chain of parent
  links: every descendant of a done todo goes, done or not, and no other open
  todo does.
\<close>

theorem clearCheckedTodos_removes_done_subtrees:
  assumes "distinct (map t_id todos)" and "todo_ranked r m todos" and "m \<le> n"
  shows "clearCheckedTodos n todos
           = Some (filter (\<lambda>t. \<not> (t_done t \<or> has_done_ancestor todos t)) todos)"
proof -
  let ?S = "\<Union>d \<in> set (filter t_done todos). todo_subtree todos (t_id d)"
  have loop: "forEachM (\<lambda>t toDelete. if t_done t then markForDeletion n todos (t_id t) toDelete
                                   else Some toDelete) todos {} = Some ({} \<union> ?S)"
  proof (rule clearChecked_loop)
    fix t acc assume "t \<in> set todos"
    with assms(2,3) have "r (t_id t) < n" by (auto simp: todo_ranked_def)
    then show "markForDeletion n todos (t_id t) acc = Some (acc \<union> todo_subtree todos (t_id t))"
      by (rule markForDeletion_subtree [OF assms(2)])
  qed
  have f: "filter (\<lambda>t. t_id t \<notin> ?S) todos = filter (\<lambda>t. \<not> (t_done t \<or> has_done_ancestor todos t)) todos"
    by (rule filter_cong [OF refl]) (simp only: collected_iff [OF assms(1)])
  have "clearCheckedTodos n todos = Some (filter (\<lambda>t. t_id t \<notin> ?S) todos)"
  proof (cases "?S = {}")
    case True
    have "filter (\<lambda>t. t_id t \<notin> ?S) todos = todos" unfolding True by simp
    with loop True show ?thesis by (simp add: clearCheckedTodos_def)
  next
    case False
    with loop show ?thesis by (simp add: clearCheckedTodos_def)
  qed
  with f show ?thesis by simp
qed

theorem clearCheckedTodos_removes_done_subtrees_witness:
  "distinct (map t_id todo_list) \<and> todo_ranked todo_rank 3 todo_list \<and> (3::nat) \<le> 3
   \<and> clearCheckedTodos 3 todo_list
       = Some (filter (\<lambda>t. \<not> (t_done t \<or> has_done_ancestor todo_list t)) todo_list)
   \<and> clearCheckedTodos 3 todo_list = Some [mkTodo ''u'' False 3 None]"
proof -
  have h1: "distinct (map t_id todo_list)" by (simp add: todo_list_def mkTodo_def)
  have h2: "todo_ranked todo_rank 3 todo_list"
    by (simp add: todo_ranked_def todo_list_def mkTodo_def todo_rank_def)
  have h3: "(3::nat) \<le> 3" by simp
  have e: "clearCheckedTodos 3 todo_list = Some [mkTodo ''u'' False 3 None]" by code_simp
  from clearCheckedTodos_removes_done_subtrees [OF h1 h2 h3] h1 h2 h3 e show ?thesis by blast
qed

section \<open>Deleting a folder\<close>

subsection \<open>Subtrees\<close>

lemma subtree_trans:
  assumes "y \<in> subtree fs x" and "z \<in> subtree fs y"
  shows "z \<in> subtree fs x"
  using assms(2)
proof (induction rule: subtree.induct)
  case self
  show ?case by (rule assms(1))
next
  case (child t p)
  then show ?case by (auto intro: subtree.child)
qed

lemma subtree_unfold:
  "subtree fs x
     = insert x (\<Union>c \<in> set (filter (\<lambda>f. f_parentId f = Some x) fs). subtree fs (f_id c))"
proof (intro set_eqI iffI)
  fix y assume "y \<in> subtree fs x"
  then show "y \<in> insert x (\<Union>c \<in> set (filter (\<lambda>f. f_parentId f = Some x) fs). subtree fs (f_id c))"
  proof (induction rule: subtree.induct)
    case self
    show ?case by simp
  next
    case (child t p)
    show ?case
    proof (cases "p = x")
      case True
      with child.hyps have "t \<in> set (filter (\<lambda>f. f_parentId f = Some x) fs)" by simp
      moreover have "f_id t \<in> subtree fs (f_id t)" by (rule subtree.self)
      ultimately show ?thesis by blast
    next
      case False
      with child.IH obtain c where c: "c \<in> set (filter (\<lambda>f. f_parentId f = Some x) fs)"
        "p \<in> subtree fs (f_id c)" by auto
      from subtree.child [OF child.hyps(1,2) c(2)] c(1) show ?thesis by blast
    qed
  qed
next
  fix y assume "y \<in> insert x (\<Union>c \<in> set (filter (\<lambda>f. f_parentId f = Some x) fs). subtree fs (f_id c))"
  then consider "y = x" | c where "c \<in> set fs" "f_parentId c = Some x" "y \<in> subtree fs (f_id c)"
    by auto
  then show "y \<in> subtree fs x"
  proof cases
    case 1
    then show ?thesis by (simp add: subtree.self)
  next
    case 2
    have "f_id c \<in> subtree fs x"
      by (rule subtree.child [OF 2(1,2)]) (rule subtree.self)
    from subtree_trans [OF this 2(3)] show ?thesis .
  qed
qed

lemma closed_subtree: "closed_ids fs (subtree fs x)"
  by (auto simp: closed_ids_def intro: subtree.child)

lemma closed_Un: "closed_ids fs A \<Longrightarrow> closed_ids fs B \<Longrightarrow> closed_ids fs (A \<union> B)"
  by (auto simp: closed_ids_def)

lemma closed_empty: "closed_ids fs {}"
  by (simp add: closed_ids_def)

lemma subtree_filter_sub:
  "y \<in> subtree (filter Q fs) c \<Longrightarrow> y \<in> subtree fs c"
  by (induction rule: subtree.induct) (auto intro: subtree.intros)

lemma subtree_filter_closed:
  assumes "closed_ids fs A"
  shows "y \<in> subtree fs c \<Longrightarrow> y \<in> A \<or> y \<in> subtree (filter (\<lambda>f. f_id f \<notin> A) fs) c"
proof (induction rule: subtree.induct)
  case self
  show ?case by (simp add: subtree.self)
next
  case (child f p)
  show ?case
  proof (cases "f_id f \<in> A")
    case True
    then show ?thesis by simp
  next
    case False
    with child.hyps(1,2) assms have "p \<notin> A" by (auto simp: closed_ids_def)
    with child.IH have p: "p \<in> subtree (filter (\<lambda>f. f_id f \<notin> A) fs) c" by simp
    have "f \<in> set (filter (\<lambda>f. f_id f \<notin> A) fs)" using False child.hyps(1) by simp
    from subtree.child [OF this child.hyps(2) p] show ?thesis by simp
  qed
qed

lemma subtree_after_removal:
  assumes "closed_ids fs A"
  shows "A \<union> subtree (filter (\<lambda>f. f_id f \<notin> A) fs) c = A \<union> subtree fs c"
  using subtree_filter_closed [OF assms] subtree_filter_sub by blast

subsection \<open>The cascade\<close>

lemma without_subtree_twice:
  "without_subtree B (without_subtree A st) = without_subtree (A \<union> B) st"
  by (auto simp: without_subtree_def intro: filter_cong)

lemma without_subtree_empty: "without_subtree {} st = st"
  by (simp add: without_subtree_def)

lemma ranked_filter: "ranked r m fs \<Longrightarrow> ranked r m (filter Q fs)"
  by (simp add: ranked_def)

lemma cascade_children:
  assumes step: "\<And>c A. c \<in> set cs \<Longrightarrow> closed_ids (folders st1) A \<Longrightarrow>
            del (f_id c) (without_subtree A st1)
              = Some (without_subtree (A \<union> subtree (folders st1) (f_id c)) st1)"
  shows "closed_ids (folders st1) A \<Longrightarrow>
         forEachM (\<lambda>subfolder. del (f_id subfolder)) cs (without_subtree A st1)
           = Some (without_subtree (A \<union> (\<Union>c \<in> set cs. subtree (folders st1) (f_id c))) st1)"
  using step
proof (induction cs arbitrary: A)
  case Nil
  show ?case by simp
next
  case (Cons c cs)
  have cl: "closed_ids (folders st1) (A \<union> subtree (folders st1) (f_id c))"
    by (rule closed_Un [OF Cons.prems(1) closed_subtree])
  have "forEachM (\<lambda>subfolder. del (f_id subfolder)) cs (without_subtree (A \<union> subtree (folders st1) (f_id c)) st1)
        = Some (without_subtree ((A \<union> subtree (folders st1) (f_id c))
                  \<union> (\<Union>c \<in> set cs. subtree (folders st1) (f_id c))) st1)"
    by (rule Cons.IH [OF cl]) (simp add: Cons.prems(2))
  then show ?case using Cons.prems(2) [of c A] Cons.prems(1) by (simp add: Un_assoc)
qed

lemma deleteFolderRecursive_subtree:
  "ranked r m (folders st) \<Longrightarrow> r F < n \<Longrightarrow>
   deleteFolderRecursive n F st = Some (without_subtree (subtree (folders st) F) st)"
proof (induction n arbitrary: F st)
  case 0
  then show ?case by simp
next
  case (Suc n)
  let ?st1 = "st\<lparr>bookmarks := filter (\<lambda>b. b_parentId b \<noteq> Some F) (bookmarks st)\<rparr>"
  let ?cs = "filter (\<lambda>f. f_parentId f = Some F) (folders ?st1)"
  let ?U = "\<Union>c \<in> set ?cs. subtree (folders ?st1) (f_id c)"
  have "forEachM (\<lambda>subfolder. deleteFolderRecursive n (f_id subfolder)) ?cs (without_subtree {} ?st1)
        = Some (without_subtree ({} \<union> ?U) ?st1)"
  proof (rule cascade_children [OF _ closed_empty])
    fix c A assume c: "c \<in> set ?cs" and A: "closed_ids (folders ?st1) A"
    from c have c': "c \<in> set (folders st)" "f_parentId c = Some F" by auto
    from ranked_child [OF Suc.prems(1) c'] Suc.prems(2) have rc: "r (f_id c) < n" by simp
    have rk: "ranked r m (folders (without_subtree A ?st1))"
      using Suc.prems(1) by (simp add: without_subtree_def ranked_filter)
    have "deleteFolderRecursive n (f_id c) (without_subtree A ?st1)
          = Some (without_subtree (subtree (folders (without_subtree A ?st1)) (f_id c)) (without_subtree A ?st1))"
      by (rule Suc.IH [OF rk rc])
    also have "\<dots> = Some (without_subtree (A \<union> subtree (folders (without_subtree A ?st1)) (f_id c)) ?st1)"
      by (simp add: without_subtree_twice)
    also have "A \<union> subtree (folders (without_subtree A ?st1)) (f_id c) = A \<union> subtree (folders ?st1) (f_id c)"
      using subtree_after_removal [OF A, of "f_id c"] by (simp add: without_subtree_def)
    finally show "deleteFolderRecursive n (f_id c) (without_subtree A ?st1)
          = Some (without_subtree (A \<union> subtree (folders ?st1) (f_id c)) ?st1)" .
  qed
  then have loop: "forEachM (\<lambda>subfolder. deleteFolderRecursive n (f_id subfolder)) ?cs ?st1
        = Some (without_subtree ?U ?st1)"
    by (simp add: without_subtree_empty)
  have u: "subtree (folders st) F = insert F ?U"
    using subtree_unfold [of "folders st" F] by simp
  have "(without_subtree ?U ?st1)\<lparr>folders := filter (\<lambda>f. f_id f \<noteq> F) (folders (without_subtree ?U ?st1))\<rparr>
        = without_subtree (insert F ?U) st"
    by (auto simp: without_subtree_def intro: filter_cong)
  with loop u show ?case by (simp add: Let_def)
qed

subsection \<open>Counting\<close>

lemma subtree_rank:
  assumes "ranked r m fs"
  shows "y \<in> subtree fs x \<Longrightarrow> r y \<le> r x"
proof (induction rule: subtree.induct)
  case self
  show ?case by simp
next
  case (child f p)
  from ranked_child [OF assms child.hyps(1,2)] child.IH show ?case by simp
qed

text \<open>With distinct ids a folder has one chain of ancestors.\<close>

lemma subtree_linear:
  assumes dist: "distinct (map f_id fs)"
  shows "y \<in> subtree fs a \<Longrightarrow> y \<in> subtree fs b \<Longrightarrow> a \<in> subtree fs b \<or> b \<in> subtree fs a"
proof (induction rule: subtree.induct)
  case self
  then show ?case by simp
next
  case (child f p)
  from child.prems show ?case
  proof (cases rule: subtree.cases)
    case self
    with subtree.child [OF child.hyps] show ?thesis by simp
  next
    case (child f' p')
    from distinct_id_eq [OF dist child.hyps(1) child(2)] child(1) have "f = f'" by simp
    with child(3) child.hyps(2) have "p = p'" by simp
    with child(4) child.IH show ?thesis by simp
  qed
qed

lemma children_disjoint:
  assumes dist: "distinct (map f_id fs)" and rk: "ranked r m fs"
      and a: "a \<in> set fs" "f_parentId a = Some x"
      and b: "b \<in> set fs" "f_parentId b = Some x"
      and ne: "a \<noteq> b"
  shows "subtree fs (f_id a) \<inter> subtree fs (f_id b) = {}"
proof -
  have one: "f_id c \<notin> subtree fs (f_id c')"
    if c: "c \<in> set fs" "f_parentId c = Some x" and c': "c' \<in> set fs" "f_parentId c' = Some x"
      and "c \<noteq> c'" for c c'
  proof
    assume "f_id c \<in> subtree fs (f_id c')"
    then show False
    proof (cases rule: subtree.cases)
      case self
      from distinct_id_eq [OF dist c(1) c'(1) self] that(5) show False by simp
    next
      case (child f p)
      from distinct_id_eq [OF dist c(1) child(2)] child(1) have "c = f" by simp
      with child(3) c(2) have "p = x" by simp
      with child(4) subtree_rank [OF rk, of x "f_id c'"] ranked_child [OF rk c'] show False by simp
    qed
  qed
  show ?thesis
  proof (rule ccontr)
    assume "subtree fs (f_id a) \<inter> subtree fs (f_id b) \<noteq> {}"
    then obtain y where "y \<in> subtree fs (f_id a)" "y \<in> subtree fs (f_id b)" by blast
    from subtree_linear [OF dist this] one [OF a b ne] one [OF b a] ne show False by auto
  qed
qed

lemma length_filter_disj:
  "(\<And>y. y \<in> set xs \<Longrightarrow> \<not> (P y \<and> Q y)) \<Longrightarrow>
   length (filter (\<lambda>y. P y \<or> Q y) xs) = length (filter P xs) + length (filter Q xs)"
  by (induction xs) auto

lemma length_filter_UN:
  "distinct cs \<Longrightarrow> (\<And>a b. a \<in> set cs \<Longrightarrow> b \<in> set cs \<Longrightarrow> a \<noteq> b \<Longrightarrow> S a \<inter> S b = {}) \<Longrightarrow>
   length (filter (\<lambda>y. g y \<in> (\<Union>c \<in> set cs. S c)) xs)
     = sum_list (map (\<lambda>c. length (filter (\<lambda>y. g y \<in> S c) xs)) cs)"
proof (induction cs)
  case Nil
  show ?case by simp
next
  case (Cons c cs)
  have disj: "S c \<inter> (\<Union>c \<in> set cs. S c) = {}"
    using Cons.prems by fastforce
  have "length (filter (\<lambda>y. g y \<in> S c \<or> g y \<in> (\<Union>c \<in> set cs. S c)) xs)
        = length (filter (\<lambda>y. g y \<in> S c) xs) + length (filter (\<lambda>y. g y \<in> (\<Union>c \<in> set cs. S c)) xs)"
    by (rule length_filter_disj) (use disj in blast)
  moreover have "length (filter (\<lambda>y. g y \<in> (\<Union>c \<in> set cs. S c)) xs)
        = sum_list (map (\<lambda>c. length (filter (\<lambda>y. g y \<in> S c) xs)) cs)"
    using Cons.prems by (intro Cons.IH) auto
  ultimately show ?case by simp
qed

lemma length_filter_one:
  "distinct (map g xs) \<Longrightarrow> a \<in> set xs \<Longrightarrow> length (filter (\<lambda>y. g y = g a) xs) = 1"
proof (induction xs)
  case Nil
  then show ?case by simp
next
  case (Cons x xs)
  show ?case
  proof (cases "x = a")
    case True
    with Cons.prems(1) have "filter (\<lambda>y. g y = g a) xs = []"
      by (auto simp: filter_empty_conv image_iff)
    with True show ?thesis by simp
  next
    case False
    with Cons.prems have "a \<in> set xs" "g x \<noteq> g a" by (auto simp: image_iff)
    with Cons show ?thesis by simp
  qed
qed

lemma length_filter_split:
  "length (filter P xs) = length (filter (\<lambda>y. P y \<and> Q y) xs) + length (filter (\<lambda>y. P y \<and> \<not> Q y) xs)"
  by (induction xs) auto

lemma count_children:
  fixes g :: "BookmarkFolder \<Rightarrow> nat"
  assumes "\<And>c. c \<in> set cs \<Longrightarrow> cnt (f_id c) = Some (g c)"
  shows "forEachM (\<lambda>subfolder count. case cnt (f_id subfolder) of None \<Rightarrow> None
                                       | Some c \<Rightarrow> Some (count + 1 + c)) cs k
         = Some (k + sum_list (map (\<lambda>c. 1 + g c) cs))"
  using assms by (induction cs arbitrary: k) simp_all

lemma countFolderItems_subtree:
  assumes dist: "distinct (map f_id (folders st))" and rk: "ranked r m (folders st)"
  shows "r x < n \<Longrightarrow> countFolderItems n st x = Some (descendant_count st x)"
proof (induction n arbitrary: x)
  case 0
  then show ?case by simp
next
  case (Suc n)
  let ?fs = "folders st"
  let ?cs = "filter (\<lambda>f. f_parentId f = Some x) ?fs"
  let ?U = "\<Union>c \<in> set ?cs. subtree ?fs (f_id c)"
  let ?nf = "\<lambda>D. length (filter (\<lambda>f. f_id f \<in> D) ?fs)"
  let ?nb = "\<lambda>D. length (filter (\<lambda>b. b_parentId b \<in> Some ` D) (bookmarks st))"
  have ih: "countFolderItems n st (f_id c) = Some (descendant_count st (f_id c))" if "c \<in> set ?cs" for c
  proof -
    from that have c: "c \<in> set ?fs" "f_parentId c = Some x" by auto
    from ranked_child [OF rk c] Suc.prems have "r (f_id c) < n" by simp
    then show ?thesis by (rule Suc.IH)
  qed
  have loop: "countFolderItems (Suc n) st x
        = Some (length (filter (\<lambda>b. b_parentId b = Some x) (bookmarks st))
                + sum_list (map (\<lambda>c. 1 + descendant_count st (f_id c)) ?cs))"
    using count_children [of ?cs "countFolderItems n st" "\<lambda>c. descendant_count st (f_id c)", OF ih]
    by (simp add: Let_def)
  have one: "1 + descendant_count st (f_id c) = ?nf (subtree ?fs (f_id c)) + ?nb (subtree ?fs (f_id c))"
    if "c \<in> set ?cs" for c
  proof -
    from that have c: "c \<in> set ?fs" by simp
    have "?nf (subtree ?fs (f_id c))
          = length (filter (\<lambda>f. f_id f \<in> subtree ?fs (f_id c) \<and> f_id f = f_id c) ?fs)
            + length (filter (\<lambda>f. f_id f \<in> subtree ?fs (f_id c) \<and> f_id f \<noteq> f_id c) ?fs)"
      by (rule length_filter_split)
    also have "filter (\<lambda>f. f_id f \<in> subtree ?fs (f_id c) \<and> f_id f = f_id c) ?fs
          = filter (\<lambda>f. f_id f = f_id c) ?fs"
      by (rule filter_cong) (auto intro: subtree.self)
    finally show ?thesis using length_filter_one [OF dist c] by (simp add: descendant_count_def)
  qed
  have dcs: "distinct ?cs" using dist by (simp add: distinct_map)
  have disj: "subtree ?fs (f_id a) \<inter> subtree ?fs (f_id b) = {}"
    if "a \<in> set ?cs" "b \<in> set ?cs" "a \<noteq> b" for a b
    using that by (intro children_disjoint [OF dist rk, of a x b]) auto
  have disjS: "Some ` subtree ?fs (f_id a) \<inter> Some ` subtree ?fs (f_id b) = {}"
    if "a \<in> set ?cs" "b \<in> set ?cs" "a \<noteq> b" for a b
    using disj [OF that] by auto
  have nfU: "?nf ?U = sum_list (map (\<lambda>c. ?nf (subtree ?fs (f_id c))) ?cs)"
    by (rule length_filter_UN [OF dcs disj])
  have "length (filter (\<lambda>b. b_parentId b \<in> (\<Union>c \<in> set ?cs. Some ` subtree ?fs (f_id c))) (bookmarks st))
        = sum_list (map (\<lambda>c. length (filter (\<lambda>b. b_parentId b \<in> Some ` subtree ?fs (f_id c)) (bookmarks st))) ?cs)"
    by (rule length_filter_UN [OF dcs disjS])
  then have nbU: "?nb ?U = sum_list (map (\<lambda>c. ?nb (subtree ?fs (f_id c))) ?cs)"
    by (simp add: image_UN)
  have xU: "x \<notin> ?U"
  proof
    assume "x \<in> ?U"
    then obtain c where c: "c \<in> set ?fs" "f_parentId c = Some x" "x \<in> subtree ?fs (f_id c)" by auto
    from subtree_rank [OF rk c(3)] ranked_child [OF rk c(1,2)] show False by simp
  qed
  have u: "subtree ?fs x = insert x ?U" by (rule subtree_unfold)
  have f1: "filter (\<lambda>f. f_id f \<in> subtree ?fs x \<and> f_id f \<noteq> x) ?fs = filter (\<lambda>f. f_id f \<in> ?U) ?fs"
    unfolding u using xU by (intro filter_cong) auto
  have "?nb (subtree ?fs x)
        = length (filter (\<lambda>b. b_parentId b = Some x \<or> b_parentId b \<in> Some ` ?U) (bookmarks st))"
    unfolding u by (rule arg_cong [where f = length], rule filter_cong) auto
  also have "\<dots> = length (filter (\<lambda>b. b_parentId b = Some x) (bookmarks st)) + ?nb ?U"
    by (rule length_filter_disj) (use xU in auto)
  finally have f2: "?nb (subtree ?fs x)
        = length (filter (\<lambda>b. b_parentId b = Some x) (bookmarks st)) + ?nb ?U" .
  have "sum_list (map (\<lambda>c. 1 + descendant_count st (f_id c)) ?cs)
        = sum_list (map (\<lambda>c. ?nf (subtree ?fs (f_id c)) + ?nb (subtree ?fs (f_id c))) ?cs)"
    by (rule arg_cong [where f = sum_list], rule map_cong [OF refl]) (rule one)
  also have "\<dots> = ?nf ?U + ?nb ?U"
    unfolding nfU nbU by (rule sum_list_addf)
  finally have "descendant_count st x
        = length (filter (\<lambda>b. b_parentId b = Some x) (bookmarks st))
          + sum_list (map (\<lambda>c. 1 + descendant_count st (f_id c)) ?cs)"
    by (simp add: descendant_count_def f1 f2)
  with loop show ?case by simp
qed

text \<open>
  C7.  In a store with distinct folder ids and parent links without a cycle, let
  \<open>F\<close> be the id of a folder and the fuel be above every rank.  Then
  \<^verbatim>\<open>deleteFolder(F)\<close> returns, and the store it leaves is, up to the order values
  it renumbers, the store without the folders of the subtree of \<open>F\<close> (\<open>F\<close>
  included) and without the bookmarks whose parent is one of them: these are
  removed and nothing else is.  \<^verbatim>\<open>countFolderItems(F)\<close> on the store before
  returns \<open>c\<close> with \<open>c + 1\<close> objects removed in all: the number of objects removed,
  \<open>F\<close> not counted.
\<close>

theorem deleteFolder_cascade:
  assumes dist: "distinct (map f_id (folders st))" and rk: "ranked r m (folders st)" and fuel: "m \<le> n"
      and isf: "F \<in> f_id ` set (folders st)"
  shows "\<exists>st' c. deleteFolder n st F = Some st' \<and> countFolderItems n st F = Some c
           \<and> erase_orders st' = erase_orders (without_subtree (subtree (folders st) F) st)
           \<and> length (folders st) + length (bookmarks st)
               = length (folders st') + length (bookmarks st') + c + 1"
proof -
  let ?D = "subtree (folders st) F"
  let ?gone = "without_subtree ?D st"
  from isf obtain folder where folder: "folder \<in> set (folders st)" "f_id folder = F" by auto
  then have fnd: "find (\<lambda>f. f_id f = F) (folders st) = Some folder"
    using find_distinct_id [OF dist folder(1)] by simp
  from folder rk fuel have rF: "r F < n" by (auto simp: ranked_def)
  let ?st' = "normalizeSiblings ?gone (f_parentId folder)"
  have del: "deleteFolder n st F = Some ?st'"
    using fnd deleteFolderRecursive_subtree [OF rk rF] by (simp add: deleteFolder_def)
  have cnt: "countFolderItems n st F = Some (descendant_count st F)"
    by (rule countFolderItems_subtree [OF dist rk rF])
  have er: "erase_orders ?st' = erase_orders ?gone" by (rule normalizeSiblings_erase)
  have lf: "length (folders ?st') = length (filter (\<lambda>f. f_id f \<notin> ?D) (folders st))"
    using erase_orders_fields(5) [OF er] by (simp add: without_subtree_def)
  have lb: "length (bookmarks ?st') = length (filter (\<lambda>b. b_parentId b \<notin> Some ` ?D) (bookmarks st))"
    using erase_orders_fields(6) [OF er] by (simp add: without_subtree_def)
  have "length (filter (\<lambda>f. f_id f \<in> ?D) (folders st))
        = length (filter (\<lambda>f. f_id f \<in> ?D \<and> f_id f = F) (folders st))
          + length (filter (\<lambda>f. f_id f \<in> ?D \<and> f_id f \<noteq> F) (folders st))"
    by (rule length_filter_split)
  also have "filter (\<lambda>f. f_id f \<in> ?D \<and> f_id f = F) (folders st) = filter (\<lambda>f. f_id f = f_id folder) (folders st)"
    using folder(2) by (intro filter_cong) (auto intro: subtree.self)
  finally have inD: "length (filter (\<lambda>f. f_id f \<in> ?D) (folders st))
        = 1 + length (filter (\<lambda>f. f_id f \<in> ?D \<and> f_id f \<noteq> F) (folders st))"
    using length_filter_one [OF dist folder(1)] by simp
  have "length (folders st) + length (bookmarks st)
        = length (folders ?st') + length (bookmarks ?st') + descendant_count st F + 1"
    using sum_length_filter_compl [of "\<lambda>f. f_id f \<in> ?D" "folders st"]
          sum_length_filter_compl [of "\<lambda>b. b_parentId b \<in> Some ` ?D" "bookmarks st"]
          inD lf lb
    by (simp add: descendant_count_def)
  with del cnt er show ?thesis by blast
qed

theorem deleteFolder_cascade_witness:
  "distinct (map f_id (folders chain_store)) \<and> ranked chain_rank 3 (folders chain_store) \<and> (3::nat) \<le> 3
   \<and> ''a'' \<in> f_id ` set (folders chain_store)
   \<and> deleteFolder 3 chain_store ''a''
       = Some \<lparr> bookmarks = [mkBookmark ''y'' 2 1 None], folders = [mkFolder ''d'' 0 None] \<rparr>
   \<and> countFolderItems 3 chain_store ''a'' = Some 3
   \<and> (\<exists>st' c. deleteFolder 3 chain_store ''a'' = Some st' \<and> countFolderItems 3 chain_store ''a'' = Some c
           \<and> erase_orders st' = erase_orders (without_subtree (subtree (folders chain_store) ''a'') chain_store)
           \<and> length (folders chain_store) + length (bookmarks chain_store)
               = length (folders st') + length (bookmarks st') + c + 1)"
proof -
  have h1: "distinct (map f_id (folders chain_store))"
    using chain_store_wf by (simp add: wf_folder_ids_def)
  have h3: "(3::nat) \<le> 3" by simp
  have h4: "''a'' \<in> f_id ` set (folders chain_store)"
    by (simp add: chain_store_def mkFolder_def)
  have e1: "deleteFolder 3 chain_store ''a''
       = Some \<lparr> bookmarks = [mkBookmark ''y'' 2 1 None], folders = [mkFolder ''d'' 0 None] \<rparr>"
    by code_simp
  have e2: "countFolderItems 3 chain_store ''a'' = Some 3" by code_simp
  from deleteFolder_cascade [OF h1 chain_store_ranked h3 h4] h1 chain_store_ranked h3 h4 e1 e2
  show ?thesis by blast
qed

section \<open>The density invariant in the bookmark store\<close>

subsection \<open>Dense lists of orders\<close>

lemma dense_orders_iff: "dense_orders os \<longleftrightarrow> mset os = mset (map int [0..<length os])"
proof
  assume "dense_orders os"
  then have "sort os = map int [0..<length os]" by (simp add: dense_orders_def)
  then have "mset (sort os) = mset (map int [0..<length os])" by simp
  then show "mset os = mset (map int [0..<length os])" by simp
next
  assume "mset os = mset (map int [0..<length os])"
  then show "dense_orders os" by (rule dense_orders_mset)
qed

lemma dense_orders_cong: "mset os = mset os' \<Longrightarrow> dense_orders os = dense_orders os'"
  using mset_eq_length [of os os'] by (simp add: dense_orders_iff)

lemma dense_orders_Nil: "dense_orders []"
  by (simp add: dense_orders_def)

lemma dense_append_order:
  assumes "dense_orders os"
  shows "append_order os = int (length os)"
proof (cases "os = []")
  case True
  then show ?thesis by (simp add: append_order_def)
next
  case False
  then have k: "0 < length os" by simp
  from assms have "mset os = mset (map int [0..<length os])" unfolding dense_orders_iff .
  then have "set os = set (map int [0..<length os])" by (rule mset_eq_setD)
  then have s: "set os = int ` {0..<length os}" by simp
  have "Max (int ` {0..<length os}) = int (length os - 1)"
  proof (rule Max_eqI)
    show "finite (int ` {0..<length os})" by simp
    show "\<And>y. y \<in> int ` {0..<length os} \<Longrightarrow> y \<le> int (length os - 1)" by auto
    show "int (length os - 1) \<in> int ` {0..<length os}" using k by auto
  qed
  moreover have "int (length os - 1) + 1 = int (length os)" using k by (cases "length os") simp_all
  ultimately show ?thesis using False s by (simp add: append_order_def)
qed

lemma dense_orders_add:
  assumes "dense_orders os" and "mset os' = add_mset (append_order os) (mset os)"
  shows "dense_orders os'"
proof -
  have len: "length os' = Suc (length os)"
    using arg_cong [OF assms(2), of size] by simp
  have "mset os' = add_mset (int (length os)) (mset (map int [0..<length os]))"
    using assms dense_append_order [OF assms(1)] by (simp add: dense_orders_iff)
  also have "\<dots> = mset (map int [0..<Suc (length os)])" by simp
  finally show ?thesis by (simp add: dense_orders_iff len)
qed

subsection \<open>The orders of a parent's children as a multiset\<close>

lemma mset_sibling_orders:
  "mset (sibling_orders st P)
     = image_mset f_order (filter_mset (\<lambda>f. f_parentId f = P) (mset (folders st)))
       + image_mset b_order (filter_mset (\<lambda>b. b_parentId b = P) (mset (bookmarks st)))"
  by (simp add: sibling_orders_def)

lemma dense_mset_cong:
  assumes "mset (sibling_orders st' P) = mset (sibling_orders st P)"
  shows "dense st' P = dense st P"
  unfolding dense_def by (rule dense_orders_cong [OF assms])

subsection \<open>Creating\<close>

lemma addBookmark_dense:
  assumes "\<forall>P. dense st P"
  shows "dense (fst (addBookmark st uri line txt newId now)) P"
proof (cases "P = None")
  case True
  have "mset (sibling_orders (fst (addBookmark st uri line txt newId now)) None)
        = add_mset (append_order (sibling_orders st None)) (mset (sibling_orders st None))"
    by (simp add: mset_sibling_orders addBookmark_def Let_def maxOrder_append_order)
  from dense_orders_add [OF _ this] assms True show ?thesis by (simp add: dense_def)
next
  case False
  then have "mset (sibling_orders (fst (addBookmark st uri line txt newId now)) P)
        = mset (sibling_orders st P)"
    by (auto simp: mset_sibling_orders addBookmark_def Let_def)
  from dense_mset_cong [OF this] assms show ?thesis by simp
qed

lemma addFolder_dense:
  assumes "\<forall>P. dense st P"
  shows "dense (fst (addFolder st nm parentId newId now)) P"
proof (cases "P = parentId")
  case True
  have "mset (sibling_orders (fst (addFolder st nm parentId newId now)) parentId)
        = add_mset (append_order (sibling_orders st parentId)) (mset (sibling_orders st parentId))"
    by (simp add: mset_sibling_orders addFolder_def Let_def maxOrder_append_order)
  from dense_orders_add [OF _ this] assms True show ?thesis by (simp add: dense_def)
next
  case False
  then have "mset (sibling_orders (fst (addFolder st nm parentId newId now)) P)
        = mset (sibling_orders st P)"
    by (auto simp: mset_sibling_orders addFolder_def Let_def)
  from dense_mset_cong [OF this] assms show ?thesis by simp
qed

subsection \<open>Editing\<close>

lemma sibling_orders_proj:
  "sibling_orders st P
     = map snd (filter (\<lambda>q. fst q = P) (map (\<lambda>f. (f_parentId f, f_order f)) (folders st))) @
       map snd (filter (\<lambda>q. fst q = P) (map (\<lambda>b. (b_parentId b, b_order b)) (bookmarks st)))"
  by (simp add: sibling_orders_def filter_map comp_def)

lemma editBookmark_orders: "sibling_orders (editBookmark st ident txt now) P = sibling_orders st P"
  by (simp add: editBookmark_def sibling_orders_proj map_update_same split: option.splits)

lemma editFolder_orders: "sibling_orders (editFolder st ident nm now) P = sibling_orders st P"
  by (simp add: editFolder_def sibling_orders_proj map_update_same split: option.splits)

subsection \<open>Deleting a bookmark\<close>

lemma find_Some_id:
  "find (\<lambda>x. g x = k) xs = Some y \<Longrightarrow> y \<in> set xs \<and> g y = k"
  by (auto simp: find_Some_iff in_set_conv_nth)

lemma deleteBookmark_dense:
  assumes dist: "distinct (map b_id (bookmarks st))" and d: "\<forall>P. dense st P"
  shows "dense (deleteBookmark st ident) P"
proof (cases "find (\<lambda>b. b_id b = ident) (bookmarks st)")
  case None
  with d show ?thesis by (simp add: deleteBookmark_def)
next
  case (Some bookmark)
  let ?st1 = "st\<lparr>bookmarks := filter (\<lambda>b. b_id b \<noteq> ident) (bookmarks st)\<rparr>"
  from find_Some_id [OF Some] have bm: "bookmark \<in> set (bookmarks st)" "b_id bookmark = ident" by auto
  have del: "deleteBookmark st ident = normalizeSiblings ?st1 (b_parentId bookmark)"
    using Some by (simp add: deleteBookmark_def)
  show ?thesis
  proof (cases "P = b_parentId bookmark")
    case True
    then show ?thesis unfolding del by (simp add: normalizeSiblings_dense)
  next
    case False
    have "filter (\<lambda>b. b_parentId b = P) (filter (\<lambda>b. b_id b \<noteq> ident) (bookmarks st))
          = filter (\<lambda>b. b_parentId b = P) (bookmarks st)"
    proof (simp only: filter_filter, rule filter_cong [OF refl])
      fix b assume b: "b \<in> set (bookmarks st)"
      show "(b_id b \<noteq> ident \<and> b_parentId b = P) = (b_parentId b = P)"
        using distinct_id_eq [OF dist b bm(1)] bm(2) False by auto
    qed
    then have "sibling_orders ?st1 P = sibling_orders st P" by (simp add: sibling_orders_def)
    with normalizeSiblings_other_parent [OF False, of ?st1] d show ?thesis
      unfolding del by (simp add: dense_def)
  qed
qed

subsection \<open>Deleting a folder\<close>

lemma subtree_child_of_outside:
  assumes dist: "distinct (map f_id fs)" and F: "folder \<in> set fs" "f_id folder = F"
      and f: "f \<in> set fs" and inD: "f_id f \<in> subtree fs F"
      and np: "f_parentId f \<noteq> f_parentId folder"
  shows "f_parentId f \<in> Some ` subtree fs F"
  using inD
proof (cases rule: subtree.cases)
  case self
  from distinct_id_eq [OF dist f F(1)] self F(2) np show ?thesis by simp
next
  case (child f' p)
  from distinct_id_eq [OF dist f child(2)] child(1) have "f = f'" by simp
  with child(3,4) show ?thesis by simp
qed

lemma deleteFolder_dense:
  assumes dist: "distinct (map f_id (folders st))" and d: "\<forall>P. dense st P"
      and rk: "ranked r m (folders st)" and fuel: "m \<le> n"
  shows "\<exists>st'. deleteFolder n st F = Some st' \<and> dense st' P"
proof (cases "find (\<lambda>f. f_id f = F) (folders st)")
  case None
  with d show ?thesis by (simp add: deleteFolder_def)
next
  case (Some folder)
  let ?D = "subtree (folders st) F"
  let ?gone = "without_subtree ?D st"
  from find_Some_id [OF Some] have fo: "folder \<in> set (folders st)" "f_id folder = F" by auto
  from fo rk fuel have rF: "r F < n" by (auto simp: ranked_def)
  have del: "deleteFolder n st F = Some (normalizeSiblings ?gone (f_parentId folder))"
    using Some deleteFolderRecursive_subtree [OF rk rF] by (simp add: deleteFolder_def)
  have "dense (normalizeSiblings ?gone (f_parentId folder)) P"
  proof (cases "P = f_parentId folder")
    case True
    then show ?thesis by (simp add: normalizeSiblings_dense)
  next
    case False
    have so: "sibling_orders (normalizeSiblings ?gone (f_parentId folder)) P = sibling_orders ?gone P"
      by (rule normalizeSiblings_other_parent [OF False])
    show ?thesis
    proof (cases "P \<in> Some ` ?D")
      case True
      have "filter (\<lambda>f. f_parentId f = P) (filter (\<lambda>f. f_id f \<notin> ?D) (folders st)) = []"
        using True by (auto simp: filter_empty_conv intro: subtree.child)
      moreover have "filter (\<lambda>b. b_parentId b = P) (filter (\<lambda>b. b_parentId b \<notin> Some ` ?D) (bookmarks st)) = []"
        using True by (auto simp: filter_empty_conv)
      ultimately have "sibling_orders ?gone P = []"
        by (simp add: sibling_orders_def without_subtree_def)
      with so show ?thesis by (simp add: dense_def dense_orders_Nil)
    next
      case outside: False
      have "filter (\<lambda>f. f_parentId f = P) (filter (\<lambda>f. f_id f \<notin> ?D) (folders st))
            = filter (\<lambda>f. f_parentId f = P) (folders st)"
      proof (simp only: filter_filter, rule filter_cong [OF refl])
        fix f assume f: "f \<in> set (folders st)"
        show "(f_id f \<notin> ?D \<and> f_parentId f = P) = (f_parentId f = P)"
          using subtree_child_of_outside [OF dist fo f] False outside by auto
      qed
      moreover have "filter (\<lambda>b. b_parentId b = P) (filter (\<lambda>b. b_parentId b \<notin> Some ` ?D) (bookmarks st))
            = filter (\<lambda>b. b_parentId b = P) (bookmarks st)"
        using outside by (simp only: filter_filter, intro filter_cong) auto
      ultimately have "sibling_orders ?gone P = sibling_orders st P"
        by (simp add: sibling_orders_def without_subtree_def)
      with so d show ?thesis by (simp add: dense_def)
    qed
  qed
  with del show ?thesis by simp
qed

subsection \<open>Moving to a folder\<close>

lemma moved_bookmark_dense:
  fixes now :: int
  assumes d: "\<forall>P. dense st P" and i: "i < length (bookmarks st)"
      and ne: "b_parentId (bookmarks st ! i) \<noteq> T"
  defines "st1 \<equiv> st\<lparr>bookmarks := (bookmarks st)[i := (bookmarks st ! i)
                  \<lparr>b_parentId := T, b_updatedAt := now,
                   b_order := maxOrder st (getFolderSiblings st T) + 1\<rparr>]\<rparr>"
  shows "dense (normalizeSiblings st1 (b_parentId (bookmarks st ! i))) P"
proof (cases "P = b_parentId (bookmarks st ! i)")
  case True
  then show ?thesis by (simp add: normalizeSiblings_dense)
next
  case False
  let ?b = "bookmarks st ! i"
  have so: "sibling_orders (normalizeSiblings st1 (b_parentId ?b)) P = sibling_orders st1 P"
    by (rule normalizeSiblings_other_parent [OF False])
  have ms: "mset (bookmarks st1) = add_mset (?b\<lparr>b_parentId := T, b_updatedAt := now,
                   b_order := append_order (sibling_orders st T)\<rparr>) (mset (bookmarks st) - {#?b#})"
    using i by (simp add: st1_def mset_update maxOrder_append_order)
  have fs: "folders st1 = folders st" by (simp add: st1_def)
  show ?thesis
  proof (cases "P = T")
    case True
    have "mset (sibling_orders st1 T)
          = add_mset (append_order (sibling_orders st T)) (mset (sibling_orders st T))"
      using ne by (simp add: mset_sibling_orders ms fs filter_diff_mset)
    from dense_orders_add [OF _ this] d so True show ?thesis by (simp add: dense_def)
  next
    case nT: False
    have "mset (sibling_orders st1 P) = mset (sibling_orders st P)"
      using False nT by (simp add: mset_sibling_orders ms fs filter_diff_mset)
    from dense_orders_cong [OF this] d so show ?thesis by (simp add: dense_def)
  qed
qed

lemma moved_folder_dense:
  fixes now :: int
  assumes d: "\<forall>P. dense st P" and i: "i < length (folders st)"
      and ne: "f_parentId (folders st ! i) \<noteq> T"
  defines "st1 \<equiv> st\<lparr>folders := (folders st)[i := (folders st ! i)
                  \<lparr>f_parentId := T, f_updatedAt := now,
                   f_order := maxOrder st (getFolderSiblings st T) + 1\<rparr>]\<rparr>"
  shows "dense (normalizeSiblings st1 (f_parentId (folders st ! i))) P"
proof (cases "P = f_parentId (folders st ! i)")
  case True
  then show ?thesis by (simp add: normalizeSiblings_dense)
next
  case False
  let ?f = "folders st ! i"
  have so: "sibling_orders (normalizeSiblings st1 (f_parentId ?f)) P = sibling_orders st1 P"
    by (rule normalizeSiblings_other_parent [OF False])
  have ms: "mset (folders st1) = add_mset (?f\<lparr>f_parentId := T, f_updatedAt := now,
                   f_order := append_order (sibling_orders st T)\<rparr>) (mset (folders st) - {#?f#})"
    using i by (simp add: st1_def mset_update maxOrder_append_order)
  have bs: "bookmarks st1 = bookmarks st" by (simp add: st1_def)
  show ?thesis
  proof (cases "P = T")
    case True
    have "mset (sibling_orders st1 T)
          = add_mset (append_order (sibling_orders st T)) (mset (sibling_orders st T))"
      using ne by (simp add: mset_sibling_orders ms bs filter_diff_mset)
    from dense_orders_add [OF _ this] d so True show ?thesis by (simp add: dense_def)
  next
    case nT: False
    have "mset (sibling_orders st1 P) = mset (sibling_orders st P)"
      using False nT by (simp add: mset_sibling_orders ms bs filter_diff_mset)
    from dense_orders_cong [OF this] d so show ?thesis by (simp add: dense_def)
  qed
qed

lemma moveToFolder_dense:
  assumes d: "\<forall>P. dense st P"
      and np: "current_parent st itemId \<noteq> Some T"
      and res: "moveToFolder n st itemId T now = Some (None, st')"
  shows "dense st' P"
proof (cases "findIndex (\<lambda>b. b_id b = itemId) (bookmarks st)")
  case (Some i)
  from findIndex_Some [OF Some] have il: "i < length (bookmarks st)" by simp
  from np Some have ne: "b_parentId (bookmarks st ! i) \<noteq> T"
    by (simp add: current_parent_def find_findIndex)
  from res Some ne have "st' = normalizeSiblings (st\<lparr>bookmarks := (bookmarks st)[i := (bookmarks st ! i)
                  \<lparr>b_parentId := T, b_updatedAt := now,
                   b_order := maxOrder st (getFolderSiblings st T) + 1\<rparr>]\<rparr>) (b_parentId (bookmarks st ! i))"
    by (simp add: moveToFolder_def Let_def)
  with moved_bookmark_dense [OF d il ne] show ?thesis by simp
next
  case None
  show ?thesis
  proof (cases "findIndex (\<lambda>f. f_id f = itemId) (folders st)")
    case nf: None
    with res None d show ?thesis by (simp add: moveToFolder_def)
  next
    case (Some i)
    from findIndex_Some [OF Some] have il: "i < length (folders st)" by simp
    from np None Some have ne: "f_parentId (folders st ! i) \<noteq> T"
      by (simp add: current_parent_def find_findIndex)
    from res None Some ne have "st' = normalizeSiblings (st\<lparr>folders := (folders st)[i := (folders st ! i)
                  \<lparr>f_parentId := T, f_updatedAt := now,
                   f_order := maxOrder st (getFolderSiblings st T) + 1\<rparr>]\<rparr>) (f_parentId (folders st ! i))"
      by (auto simp: moveToFolder_def Let_def split: option.splits)
    with moved_folder_dense [OF d il ne] show ?thesis by simp
  qed
qed

subsection \<open>Reordering\<close>

lemma item_parentId_set_order [simp]: "item_parentId (item_set_order v x) = item_parentId x"
  by (cases x) simp_all

lemma item_order_set_order [simp]: "item_order (item_set_order v x) = v"
  by (cases x) simp_all

lemma item_parentId_reparent [simp]: "item_parentId (item_reparent p now x) = p"
  by (cases x) simp_all

lemma renumber_orders:
  "map item_order (map (\<lambda>(index, item). item_set_order (int index) item) (enumerate n xs))
     = map int [n..<n + length xs]"
  by (induction xs arbitrary: n) (simp_all add: upt_conv_Cons del: upt_Suc)

lemma renumber_parents:
  "map item_parentId (map (\<lambda>(index, item). item_set_order (int index) item) (enumerate n xs))
     = map item_parentId xs"
  by (induction xs arbitrary: n) simp_all

lemma split_orders:
  "mset (map f_order (List.map_filter as_folder xs)) + mset (map b_order (List.map_filter as_bookmark xs))
     = mset (map item_order xs)"
proof (induction xs)
  case Nil
  show ?case by (simp add: List.map_filter_simps)
next
  case (Cons x xs)
  then show ?case by (cases x) (simp_all add: List.map_filter_simps)
qed

lemma split_folders_parent:
  "\<forall>x \<in> set xs. item_parentId x = T \<Longrightarrow> \<forall>f \<in> set (List.map_filter as_folder xs). f_parentId f = T"
proof (induction xs)
  case Nil
  show ?case by (simp add: List.map_filter_simps)
next
  case (Cons x xs)
  then show ?case by (cases x) (simp_all add: List.map_filter_simps)
qed

lemma split_bookmarks_parent:
  "\<forall>x \<in> set xs. item_parentId x = T \<Longrightarrow> \<forall>b \<in> set (List.map_filter as_bookmark xs). b_parentId b = T"
proof (induction xs)
  case Nil
  show ?case by (simp add: List.map_filter_simps)
next
  case (Cons x xs)
  then show ?case by (cases x) (simp_all add: List.map_filter_simps)
qed

lemma filter_all: "\<forall>x \<in> set xs. P x \<Longrightarrow> filter P xs = xs"
  by (induction xs) auto

lemma filter_none: "\<forall>x \<in> set xs. \<not> P x \<Longrightarrow> filter P xs = []"
  by (induction xs) auto

text \<open>The rebuilt arrays: the target parent has the items, nothing else changes.\<close>

lemma splitBack_target:
  assumes "\<forall>x \<in> set xs. item_parentId x = T"
  shows "mset (sibling_orders (splitBack st T xs) T) = mset (map item_order xs)"
proof -
  have f: "filter (\<lambda>f. f_parentId f = T) (List.map_filter as_folder xs) = List.map_filter as_folder xs"
    by (rule filter_all) (use split_folders_parent [OF assms] in simp)
  have b: "filter (\<lambda>b. b_parentId b = T) (List.map_filter as_bookmark xs) = List.map_filter as_bookmark xs"
    by (rule filter_all) (use split_bookmarks_parent [OF assms] in simp)
  have f0: "filter (\<lambda>f. f_parentId f \<noteq> T \<and> f_parentId f = T) (folders st) = []"
    by (rule filter_none) simp
  have b0: "filter (\<lambda>b. b_parentId b \<noteq> T \<and> b_parentId b = T) (bookmarks st) = []"
    by (rule filter_none) simp
  have "sibling_orders (splitBack st T xs) T
        = map f_order (List.map_filter as_folder xs) @ map b_order (List.map_filter as_bookmark xs)"
    by (simp add: sibling_orders_def splitBack_def f b f0 b0)
  then show ?thesis using split_orders [of xs] by simp
qed

lemma splitBack_other:
  assumes "\<forall>x \<in> set xs. item_parentId x = T" and "Q \<noteq> T"
  shows "sibling_orders (splitBack st T xs) Q = sibling_orders st Q"
proof -
  have f: "filter (\<lambda>f. f_parentId f = Q) (List.map_filter as_folder xs) = []"
    by (rule filter_none) (use split_folders_parent [OF assms(1)] assms(2) in auto)
  have b: "filter (\<lambda>b. b_parentId b = Q) (List.map_filter as_bookmark xs) = []"
    by (rule filter_none) (use split_bookmarks_parent [OF assms(1)] assms(2) in auto)
  have f0: "filter (\<lambda>f. f_parentId f \<noteq> T \<and> f_parentId f = Q) (folders st)
            = filter (\<lambda>f. f_parentId f = Q) (folders st)"
    using assms(2) by (intro filter_cong) auto
  have b0: "filter (\<lambda>b. b_parentId b \<noteq> T \<and> b_parentId b = Q) (bookmarks st)
            = filter (\<lambda>b. b_parentId b = Q) (bookmarks st)"
    using assms(2) by (intro filter_cong) auto
  show ?thesis by (simp add: sibling_orders_def splitBack_def f b f0 b0)
qed

lemma itemsInParent_parent: "\<forall>x \<in> set (itemsInParent st T). item_parentId x = T"
  by (auto simp: itemsInParent_def Let_def)

lemma insertRelative_result:
  assumes "insertRelative allItems draggedItem targetId pos = Some renumbered"
      and "\<forall>x \<in> set allItems. item_parentId x = T" and "item_parentId draggedItem = T"
  shows "(\<forall>x \<in> set renumbered. item_parentId x = T)
         \<and> map item_order renumbered = map int [0..<length renumbered]"
proof -
  from assms(1) obtain k where
    r: "renumbered = map (\<lambda>(index, item). item_set_order (int index) item)
          (enumerate 0 (take k allItems @ [draggedItem] @ drop k allItems))"
    by (auto simp: insertRelative_def Let_def split: option.splits)
  let ?spliced = "take k allItems @ [draggedItem] @ drop k allItems"
  have sp: "\<forall>x \<in> set ?spliced. item_parentId x = T"
    using assms(2,3) by (auto dest: in_set_takeD in_set_dropD)
  have "map item_parentId renumbered = map item_parentId ?spliced"
    unfolding r by (rule renumber_parents)
  from arg_cong [OF this, of set] have "item_parentId ` set renumbered = item_parentId ` set ?spliced"
    by (simp only: set_map)
  then have im: "item_parentId ` set renumbered = item_parentId ` set ?spliced" .
  have p: "\<forall>x \<in> set renumbered. item_parentId x = T"
  proof
    fix x assume "x \<in> set renumbered"
    then have "item_parentId x \<in> item_parentId ` set ?spliced" unfolding im [symmetric] by (rule imageI)
    then obtain y where "y \<in> set ?spliced" "item_parentId x = item_parentId y" by (rule imageE)
    with sp show "item_parentId x = T" by auto
  qed
  have "map item_order renumbered = map int [0..<0 + length ?spliced]"
    unfolding r by (rule renumber_orders)
  moreover have "length renumbered = length ?spliced" unfolding r by simp
  ultimately show ?thesis using p by simp
qed

text \<open>Taking the dragged object out leaves the children of every other parent.\<close>

lemma removeDragged_other:
  assumes distB: "distinct (map b_id (bookmarks st))" and distF: "distinct (map f_id (folders st))"
      and dragged: "firstItem (find (\<lambda>b. b_id b = draggedId) (bookmarks st))
                       (find (\<lambda>f. f_id f = draggedId) (folders st)) = Some dragged"
      and Q: "Q \<noteq> item_parentId dragged"
  shows "sibling_orders (removeDragged st dragged) Q = sibling_orders st Q"
proof (cases dragged)
  case (BookmarkItem b)
  with dragged have "find (\<lambda>b. b_id b = draggedId) (bookmarks st) = Some b"
    by (auto simp: firstItem_def split: option.splits)
  from find_Some_id [OF this] have b: "b \<in> set (bookmarks st)" by simp
  have "filter (\<lambda>x. b_parentId x = Q) (filter (\<lambda>x. b_id x \<noteq> b_id b) (bookmarks st))
        = filter (\<lambda>x. b_parentId x = Q) (bookmarks st)"
  proof (simp only: filter_filter, rule filter_cong [OF refl])
    fix x assume x: "x \<in> set (bookmarks st)"
    show "(b_id x \<noteq> b_id b \<and> b_parentId x = Q) = (b_parentId x = Q)"
      using distinct_id_eq [OF distB x b] Q BookmarkItem by auto
  qed
  with BookmarkItem show ?thesis by (simp add: removeDragged_def sibling_orders_def)
next
  case (FolderItem f)
  with dragged have "find (\<lambda>f. f_id f = draggedId) (folders st) = Some f"
    by (auto simp: firstItem_def split: option.splits)
  from find_Some_id [OF this] have f: "f \<in> set (folders st)" by simp
  have "filter (\<lambda>x. f_parentId x = Q) (filter (\<lambda>x. f_id x \<noteq> f_id f) (folders st))
        = filter (\<lambda>x. f_parentId x = Q) (folders st)"
  proof (simp only: filter_filter, rule filter_cong [OF refl])
    fix x assume x: "x \<in> set (folders st)"
    show "(f_id x \<noteq> f_id f \<and> f_parentId x = Q) = (f_parentId x = Q)"
      using distinct_id_eq [OF distF x f] Q FolderItem by auto
  qed
  with FolderItem show ?thesis by (simp add: removeDragged_def sibling_orders_def)
qed

lemma reorderItem_success:
  assumes "reorderItem n st draggedId targetId pos now = Some (None, st')"
  obtains dragged target renumbered where
    "firstItem (find (\<lambda>b. b_id b = draggedId) (bookmarks st))
        (find (\<lambda>f. f_id f = draggedId) (folders st)) = Some dragged"
    "insertRelative
        (itemsInParent (if item_parentId dragged \<noteq> item_parentId target
                        then normalizeSiblings (removeDragged st dragged) (item_parentId dragged)
                        else removeDragged st dragged) (item_parentId target))
        (item_reparent (item_parentId target) now dragged) targetId pos = Some renumbered"
    "st' = splitBack (if item_parentId dragged \<noteq> item_parentId target
                        then normalizeSiblings (removeDragged st dragged) (item_parentId dragged)
                        else removeDragged st dragged) (item_parentId target) renumbered"
  using assms unfolding reorderItem_def Let_def
  by (auto split: option.splits if_splits)

lemma reorderItem_dense:
  assumes distB: "distinct (map b_id (bookmarks st))" and distF: "distinct (map f_id (folders st))"
      and d: "\<forall>P. dense st P"
      and res: "reorderItem n st draggedId targetId pos now = Some (None, st')"
  shows "dense st' P"
proof -
  from reorderItem_success [OF res] obtain dragged target renumbered where
    dr: "firstItem (find (\<lambda>b. b_id b = draggedId) (bookmarks st))
        (find (\<lambda>f. f_id f = draggedId) (folders st)) = Some dragged"
    and ins: "insertRelative
        (itemsInParent (if item_parentId dragged \<noteq> item_parentId target
                        then normalizeSiblings (removeDragged st dragged) (item_parentId dragged)
                        else removeDragged st dragged) (item_parentId target))
        (item_reparent (item_parentId target) now dragged) targetId pos = Some renumbered"
    and st': "st' = splitBack (if item_parentId dragged \<noteq> item_parentId target
                        then normalizeSiblings (removeDragged st dragged) (item_parentId dragged)
                        else removeDragged st dragged) (item_parentId target) renumbered"
    by blast
  let ?S = "item_parentId dragged" and ?T = "item_parentId target"
  let ?st1 = "removeDragged st dragged"
  let ?st2 = "if ?S \<noteq> ?T then normalizeSiblings ?st1 ?S else ?st1"
  from insertRelative_result [OF ins itemsInParent_parent item_parentId_reparent]
  have rp: "\<forall>x \<in> set renumbered. item_parentId x = ?T"
    and ro: "map item_order renumbered = map int [0..<length renumbered]" by auto
  show ?thesis
  proof (cases "P = ?T")
    case True
    have "mset (sibling_orders st' ?T) = mset (map int [0..<length renumbered])"
      unfolding st' using splitBack_target [OF rp] ro by simp
    then have "dense_orders (sibling_orders st' ?T)" by (rule dense_orders_mset)
    with True show ?thesis by (simp add: dense_def)
  next
    case False
    have s2: "sibling_orders st' P = sibling_orders ?st2 P"
      unfolding st' by (rule splitBack_other [OF rp False])
    show ?thesis
    proof (cases "P = ?S")
      case True
      with False have "?st2 = normalizeSiblings ?st1 ?S" by auto
      with s2 True normalizeSiblings_dense [of ?st1 ?S] show ?thesis by (simp add: dense_def)
    next
      case nS: False
      have "sibling_orders ?st2 P = sibling_orders ?st1 P"
        using normalizeSiblings_other_parent [OF nS, of ?st1] by simp
      also have "\<dots> = sibling_orders st P"
        by (rule removeDragged_other [OF distB distF dr nS])
      finally show ?thesis using s2 d by (simp add: dense_def)
    qed
  qed
qed

subsection \<open>Every operation returns\<close>

lemma validateFolderMove_total:
  assumes rk: "ranked r m (folders st)" and fuel: "m + 2 \<le> n" and F: "F \<in> f_id ` set (folders st)"
  shows "\<exists>v. validateFolderMove n st F T = Some v"
proof -
  from F rk have "r F < m" by (auto simp: ranked_def)
  with fuel have "r F < n" by simp
  from getMaxFolderDepth_returns [OF rk this] obtain h where h: "getMaxFolderDepth n st F = Some h" by blast
  show ?thesis
  proof (cases T)
    case None
    then show ?thesis by (simp add: validateFolderMove_def)
  next
    case (Some t)
    from isDescendantOf_loop_total [OF rk fuel, of "Some t" F]
    obtain b where b: "isDescendantOf n st t F = Some b" unfolding isDescendantOf_def by blast
    from getFolderDepth_loop_total [OF rk fuel, of "Some t" 1]
    obtain d where d: "getFolderDepth n st t = Some d" unfolding getFolderDepth_def by blast
    from Some h b d show ?thesis by (cases b) (simp_all add: validateFolderMove_def)
  qed
qed

lemma moveToFolder_total:
  assumes rk: "ranked r m (folders st)" and fuel: "m + 2 \<le> n"
  shows "\<exists>res. moveToFolder n st itemId T now = Some res"
proof (cases "findIndex (\<lambda>b. b_id b = itemId) (bookmarks st)")
  case (Some i)
  then show ?thesis by (simp add: moveToFolder_def Let_def)
next
  case None
  show ?thesis
  proof (cases "findIndex (\<lambda>f. f_id f = itemId) (folders st)")
    case nf: None
    with None show ?thesis by (simp add: moveToFolder_def)
  next
    case (Some i)
    from findIndex_Some [OF Some] have "itemId \<in> f_id ` set (folders st)" by force
    from validateFolderMove_total [OF rk fuel this, of T] obtain v
      where "validateFolderMove n st itemId T = Some v" by blast
    with None Some show ?thesis by (cases v) (simp_all add: moveToFolder_def Let_def)
  qed
qed

lemma reorderItem_total:
  assumes rk: "ranked r m (folders st)" and fuel: "m + 2 \<le> n"
  shows "\<exists>res. reorderItem n st draggedId targetId pos now = Some res"
proof -
  have v: "\<exists>v. (case find (\<lambda>f. f_id f = draggedId) (folders st) of None \<Rightarrow> Some None
               | Some f \<Rightarrow> validateFolderMove n st (f_id f) T) = Some v" for T
  proof (cases "find (\<lambda>f. f_id f = draggedId) (folders st)")
    case None
    then show ?thesis by simp
  next
    case (Some f)
    from find_Some_id [OF Some] have "f_id f \<in> f_id ` set (folders st)" by (intro imageI) simp
    from validateFolderMove_total [OF rk fuel this, of T] Some show ?thesis by simp
  qed
  show ?thesis
  proof (cases "firstItem (find (\<lambda>b. b_id b = draggedId) (bookmarks st))
                  (find (\<lambda>f. f_id f = draggedId) (folders st))")
    case None
    then show ?thesis by (simp add: reorderItem_def)
  next
    case dragged: (Some dragged)
    show ?thesis
    proof (cases "firstItem (find (\<lambda>b. b_id b = targetId) (bookmarks st))
                  (find (\<lambda>f. f_id f = targetId) (folders st))")
      case None
      with dragged show ?thesis by (simp add: reorderItem_def)
    next
      case (Some target)
      from v [of "item_parentId target"] obtain w where
        w: "(case find (\<lambda>f. f_id f = draggedId) (folders st) of None \<Rightarrow> Some None
               | Some f \<Rightarrow> validateFolderMove n st (f_id f) (item_parentId target)) = Some w" by blast
      show ?thesis
        using dragged Some w
        by (cases w) (simp_all add: reorderItem_def Let_def split: option.splits)
    qed
  qed
qed

subsection \<open>The order of a todo\<close>

lemma reorderTodo_orders:
  assumes "draggedId \<in> t_id ` set todos" and "targetId \<in> t_id ` set todos"
  shows "map t_order (reorderTodo todos draggedId targetId) = map int [0..<length todos]"
proof -
  have shifted: "map t_order (map (\<lambda>(index, todo). todo\<lparr>t_order := int index\<rparr>) (enumerate k xs))
             = map int [k..<k + length xs]" for xs :: "Todo list" and k
    by (induction xs arbitrary: k) (simp_all add: upt_conv_Cons del: upt_Suc)
  have idx: "map t_order (map (\<lambda>(index, todo). todo\<lparr>t_order := int index\<rparr>) (enumerate 0 xs))
             = map int [0..<length xs]" for xs :: "Todo list"
    using shifted [of 0 xs] by simp
  from assms(1) obtain di where di: "findIndex (\<lambda>t. t_id t = draggedId) todos = Some di"
    using findIndex_None_iff [of "\<lambda>t. t_id t = draggedId" todos]
    by (cases "findIndex (\<lambda>t. t_id t = draggedId) todos") auto
  from assms(2) obtain ti where ti: "findIndex (\<lambda>t. t_id t = targetId) todos = Some ti"
    using findIndex_None_iff [of "\<lambda>t. t_id t = targetId" todos]
    by (cases "findIndex (\<lambda>t. t_id t = targetId) todos") auto
  from findIndex_Some [OF di] have "di < length todos" by simp
  then have len: "length (take ti (take di todos @ drop (Suc di) todos) @
                    todos ! di # drop ti (take di todos @ drop (Suc di) todos)) = length todos"
    by (simp del: take_append drop_append)
  show ?thesis
    unfolding reorderTodo_def di ti option.case Let_def idx len ..
qed

subsection \<open>The invariant\<close>

lemma toggleBookmark_dense:
  assumes dist: "distinct (map b_id (bookmarks st))" and d: "\<forall>P. dense st P"
  shows "dense (toggleBookmark_command st fileUri line lineAt newId now) P"
  using deleteBookmark_dense [OF dist d] addBookmark_dense [OF d]
  by (simp add: toggleBookmark_command_def Let_def split: option.splits)

text \<open>
  C1 (as amended).  Take a bookmark store with distinct bookmark ids, distinct
  folder ids and parent links without a cycle, in which the children of every
  parent (folders and bookmarks together, the root group included) have dense
  orders, and any operation among create (\<^verbatim>\<open>addBookmark\<close>, \<^verbatim>\<open>addFolder\<close>), rename
  (\<^verbatim>\<open>editBookmark\<close>, \<^verbatim>\<open>editFolder\<close>), toggle (the command \<^verbatim>\<open>toggleBookmark\<close>),
  delete (\<^verbatim>\<open>deleteBookmark\<close>, \<^verbatim>\<open>deleteFolder\<close>), \<^verbatim>\<open>moveToFolder\<close> to a parent
  other than the current one, and \<^verbatim>\<open>reorderItem\<close>.  With enough fuel the
  operation returns, and when it completes without an error the children of
  every parent again have orders that sorted are exactly \<open>0, 1, ..., k - 1\<close>.
  The todo store keeps no order per parent: \<^verbatim>\<open>addTodo\<close> gives the new todo the
  length of the whole array, and \<^verbatim>\<open>reorderTodo\<close>, when it finds both ids, gives
  every todo its position in the whole array.
\<close>

theorem bookmark_store_density:
  assumes distB: "distinct (map b_id (bookmarks st))" and distF: "distinct (map f_id (folders st))"
      and rk: "ranked r m (folders st)" and fuel: "m + 2 \<le> n"
      and d: "\<forall>P. dense st P"
      and nsp: "\<not> same_parent_move st operation"
  shows "(\<exists>err st'. run_op n st operation = Some (err, st') \<and> (err = None \<longrightarrow> (\<forall>P. dense st' P)))
     \<and> t_order (snd (addTodo todos input Q todoId created)) = int (length todos)
     \<and> (draggedId \<in> t_id ` set todos \<and> targetId \<in> t_id ` set todos \<longrightarrow>
          map t_order (reorderTodo todos draggedId targetId) = map int [0..<length todos])"
proof -
  have store: "\<exists>err st'. run_op n st operation = Some (err, st') \<and> (err = None \<longrightarrow> (\<forall>P. dense st' P))"
  proof (cases operation)
    case (AddBookmark fileUri line tx newId now)
    then show ?thesis using addBookmark_dense [OF d] by auto
  next
    case (EditBookmark ident tx now)
    then show ?thesis using d by (simp add: dense_def editBookmark_orders)
  next
    case (DeleteBookmark ident)
    then show ?thesis using deleteBookmark_dense [OF distB d] by auto
  next
    case (ToggleBookmark fileUri line lineAt newId now)
    then show ?thesis using toggleBookmark_dense [OF distB d] by auto
  next
    case (AddFolder nm parentId newId now)
    then show ?thesis using addFolder_dense [OF d] by auto
  next
    case (EditFolder ident nm now)
    then show ?thesis using d by (simp add: dense_def editFolder_orders)
  next
    case (DeleteFolder ident)
    from fuel have le: "m \<le> n" by simp
    have "\<exists>st'. deleteFolder n st ident = Some st' \<and> (\<forall>P. dense st' P)"
    proof -
      from deleteFolder_dense [OF distF d rk le, of ident None]
      obtain st' where st': "deleteFolder n st ident = Some st'" by blast
      have "dense st' P" for P
        using deleteFolder_dense [OF distF d rk le, of ident P] st' by simp
      with st' show ?thesis by blast
    qed
    with DeleteFolder show ?thesis by auto
  next
    case (MoveToFolder itemId T now)
    from moveToFolder_total [OF rk fuel, of itemId T now] obtain err st'
      where res: "moveToFolder n st itemId T now = Some (err, st')" by (metis surj_pair)
    from nsp MoveToFolder have np: "current_parent st itemId \<noteq> Some T" by simp
    have "err = None \<longrightarrow> (\<forall>P. dense st' P)"
      using moveToFolder_dense [OF d np] res by blast
    with res MoveToFolder show ?thesis by simp
  next
    case (ReorderItem draggedId targetId pos now)
    from reorderItem_total [OF rk fuel, of draggedId targetId pos now] obtain err st'
      where res: "reorderItem n st draggedId targetId pos now = Some (err, st')" by (metis surj_pair)
    have "err = None \<longrightarrow> (\<forall>P. dense st' P)"
      using reorderItem_dense [OF distB distF d] res by blast
    with res ReorderItem show ?thesis by simp
  qed
  have created: "t_order (snd (addTodo todos input Q todoId created)) = int (length todos)"
    by (simp add: addTodo_def Let_def)
  from store created reorderTodo_orders [of draggedId todos targetId] show ?thesis by blast
qed

lemma chain_store_dense: "dense chain_store P"
  by (auto simp: dense_def dense_orders_def sibling_orders_def chain_store_def mkFolder_def mkBookmark_def)

theorem bookmark_store_density_witness:
  "distinct (map b_id (bookmarks chain_store)) \<and> distinct (map f_id (folders chain_store))
   \<and> ranked chain_rank 3 (folders chain_store) \<and> (3::nat) + 2 \<le> 5
   \<and> (\<forall>P. dense chain_store P)
   \<and> \<not> same_parent_move chain_store (MoveToFolder ''y'' (Some ''a'') 9)
   \<and> map_option fst (run_op 5 chain_store (MoveToFolder ''y'' (Some ''a'') 9)) = Some None
   \<and> (\<exists>st'. run_op 5 chain_store (MoveToFolder ''y'' (Some ''a'') 9) = Some (None, st')
         \<and> (\<forall>P. dense st' P))
   \<and> ''s'' \<in> t_id ` set todo_list \<and> ''p'' \<in> t_id ` set todo_list
   \<and> map t_order (reorderTodo todo_list ''s'' ''p'') = [0, 1, 2, 3, 4]"
proof -
  have h1: "distinct (map b_id (bookmarks chain_store))"
    by (simp add: chain_store_def mkBookmark_def)
  have h2: "distinct (map f_id (folders chain_store))"
    using chain_store_wf by (simp add: wf_folder_ids_def)
  have h4: "(3::nat) + 2 \<le> 5" by simp
  have h5: "\<forall>P. dense chain_store P" by (simp add: chain_store_dense)
  have h6: "\<not> same_parent_move chain_store (MoveToFolder ''y'' (Some ''a'') 9)"
    by (simp add: current_parent_def chain_store_def mkBookmark_def)
  have e: "map_option fst (run_op 5 chain_store (MoveToFolder ''y'' (Some ''a'') 9)) = Some None"
    by code_simp
  have h7: "''s'' \<in> t_id ` set todo_list" "''p'' \<in> t_id ` set todo_list"
    by (simp_all add: todo_list_def mkTodo_def)
  note inst = bookmark_store_density [OF h1 h2 chain_store_ranked h4 h5 h6,
      where draggedId = "''s''" and todos = todo_list and targetId = "''p''"]
  from inst h7 have "map t_order (reorderTodo todo_list ''s'' ''p'') = map int [0..<length todo_list]"
    by blast
  then have h8: "map t_order (reorderTodo todo_list ''s'' ''p'') = [0, 1, 2, 3, 4]"
    by (simp add: todo_list_def upt_conv_Cons del: upt_Suc)
  from inst
  obtain err st' where r: "run_op 5 chain_store (MoveToFolder ''y'' (Some ''a'') 9) = Some (err, st')"
    "err = None \<longrightarrow> (\<forall>P. dense st' P)" by blast
  from r(1) e have "err = None" by simp
  with r have "\<exists>st'. run_op 5 chain_store (MoveToFolder ''y'' (Some ''a'') 9) = Some (None, st')
         \<and> (\<forall>P. dense st' P)" by blast
  with h1 h2 chain_store_ranked h4 h5 h6 e h7 h8 show ?thesis by blast
qed

text \<open>
  C1, counterexample.  The todo store keeps no order per parent: \<^verbatim>\<open>addTodo\<close>
  gives the new todo the length of the whole array.  From the single root todo
  \<open>a\<close> (order 0), whose store is dense for the root and for \<open>a\<close>, adding a child
  of \<open>a\<close> gives the child order 1, and the children of \<open>a\<close> are not \<open>0..k-1\<close>.
\<close>

theorem density_todo_counterexample:
  "todo_dense [mkTodo ''a'' False 0 None] None
   \<and> todo_dense [mkTodo ''a'' False 0 None] (Some ''a'')
   \<and> \<not> todo_dense (fst (addTodo [mkTodo ''a'' False 0 None] ''sub'' (Some ''a'') ''b'' 1)) (Some ''a'')"
  by (simp add: todo_dense_def dense_orders_def todo_sibling_orders_def addTodo_def mkTodo_def Let_def)

subsection \<open>Paths that leave a gap\<close>

text \<open>
  The invariant is not stated of three paths, each of which skips the
  renumbering that its sibling path does.  \<^verbatim>\<open>moveToFolder\<close> to the parent the
  item already has gives the item the order \<open>max + 1\<close> over siblings that
  include itself and does not renumber, where a move to another parent
  renumbers the group that was left.  In the dense root group \<open>a, d, y\<close> the
  bookmark \<open>y\<close> goes from order 2 to order 3.
\<close>

lemma moveToFolder_same_parent_gap:
  "dense chain_store None
   \<and> map_option (\<lambda>res. sibling_orders (snd res) None) (moveToFolder 5 chain_store ''y'' None 9)
       = Some [0, 1, 3]
   \<and> map_option (\<lambda>res. dense (snd res) None) (moveToFolder 5 chain_store ''y'' None 9) = Some False"
  by code_simp

text \<open>
  \<^verbatim>\<open>handleTextDocumentChange\<close> and \<^verbatim>\<open>handleFileDeleted\<close> filter bookmarks out of
  the array and, unlike \<^verbatim>\<open>deleteBookmark\<close>, renumber nothing.  Of the root
  bookmarks \<open>g\<close> (order 0, line 3) and \<open>k\<close> (order 1), \<open>g\<close> is removed, by the
  deletion of the lines 2 to 4 or with its file, and \<open>k\<close> keeps the order 1.
\<close>

lemma handleTextDocumentChange_gap:
  "dense two_file_store None
   \<and> sibling_orders (snd (handleTextDocumentChange two_file_store ''file:///gone.js''
        [\<lparr> c_startLine = 2, c_startCharacter = 0, c_endLine = 5, c_endCharacter = 0, c_text = [] \<rparr>] 9)) None
       = [1]
   \<and> \<not> dense (snd (handleTextDocumentChange two_file_store ''file:///gone.js''
        [\<lparr> c_startLine = 2, c_startCharacter = 0, c_endLine = 5, c_endCharacter = 0, c_text = [] \<rparr>] 9)) None"
  by code_simp

lemma handleFileDeleted_gap:
  "dense two_file_store None
   \<and> sibling_orders (snd (handleFileDeleted two_file_store [''file:///gone.js''])) None = [1]
   \<and> \<not> dense (snd (handleFileDeleted two_file_store [''file:///gone.js''])) None"
  by code_simp

end
